theory Spec2Isabelle
  imports Main "HOL-Library.Word"
begin

section \<open>Machine types, memory and the status model\<close>

text \<open>
  The library is C, taken on a platform with 32-bit \<open>int\<close> and 64-bit \<open>size_t\<close>. An
  \<open>int\<close> is a 32-bit word read in two's complement (\<open>sint\<close>, \<open>\<le>s\<close>, \<open><s\<close>); where C
  leaves signed overflow undefined, \<open>+\<close> and \<open>*\<close> wrap around. A pointer that may be
  \<open>NULL\<close> is an \<open>option\<close>; an owned pointer holds the object it points to, so a sibling
  chain linked through \<open>next\<close> is a nested value and the tree has no sharing.
\<close>

type_synonym c_int = "32 word"
type_synonym size_t = "64 word"

datatype test_status =
    STATUS_SUCCESS
  | STATUS_UNEXPECTED_OUTPUT
  | STATUS_EXPECTED_BUILD_ERROR
  | STATUS_BUILD_ERROR
  | STATUS_EXPECTED_RUNTIME_ERROR
  | STATUS_RUNTIME_ERROR

record test_stats =
  success_count :: c_int
  unexpected_output_count :: c_int
  expected_build_error_count :: c_int
  build_error_count :: c_int
  expected_runtime_error_count :: c_int
  runtime_error_count :: c_int

text \<open>
  A test function takes no argument and returns a status; what it does to the rest of
  the program (a counter it increments, say) is a change of the surrounding state \<open>'w\<close>,
  which does not contain the tree of suites.
\<close>

type_synonym 'w test_func_t = "'w \<Rightarrow> test_status \<times> 'w"

text \<open>
  \<open>results\<close> is the heap array behind the pointer of the same name: one entry per slot,
  \<open>None\<close> for a slot that was never written. The \<open>NULL\<close> array is \<open>[]\<close>.
\<close>

datatype 'w test_case = Test_Case
  (case_name: string)
  (test_func: "'w test_func_t option")
  (results: "test_status option list")
  (result_count: c_int)
  (result_capacity: c_int)
  (case_next: "'w test_case option")

datatype 'w test_suite = Test_Suite
  (suite_name: string)
  (test_cases: "'w test_case option")
  (child_suites: "'w test_suite option")
  (suite_next: "'w test_suite option")
  (stats: test_stats)

record 'w test_runner =
  root_suite :: "'w test_suite option"
  global_stats :: test_stats

text \<open>
  The allocator is outside the library. Its answers are an input: the list says, request
  by request (\<open>malloc\<close>, \<open>strdup\<close>, \<open>realloc\<close>), whether the next allocation is
  granted; once the list is used up every request is granted.
\<close>

type_synonym heap = "bool list"

fun alloc :: "heap \<Rightarrow> bool \<times> heap" where
  "alloc [] = (True, [])"
| "alloc (granted # h) = (granted, h)"

definition PTRDIFF_MAX :: size_t where
  "PTRDIFF_MAX = 2 ^ 63 - 1"

definition sizeof_test_status_t :: size_t where
  "sizeof_test_status_t = 4"

text \<open>
  \<open>realloc\<close> on an array of 4-byte entries. A request of more than \<open>PTRDIFF_MAX\<close> bytes
  always fails; a request of zero bytes returns \<open>NULL\<close>. A granted request keeps the old
  entries and adds unwritten slots up to the new size.
\<close>

definition realloc :: "heap \<Rightarrow> 'a option list \<Rightarrow> size_t \<Rightarrow> 'a option list option \<times> heap" where
  "realloc h old bytes =
     (if bytes = 0 \<or> PTRDIFF_MAX < bytes then (None, h)
      else
        (let (granted, h') = alloc h;
             slots = unat bytes div unat sizeof_test_status_t
         in (if granted then Some (take slots old @ replicate (slots - length old) None) else None,
             h')))"

text \<open>
  Array access at the value of an \<open>int\<close> index. An index outside the array is outside
  C's semantics: a read there yields no enumerator and a write there leaves the array as
  it is.
\<close>

definition array_read :: "'a option list \<Rightarrow> int \<Rightarrow> 'a option" where
  "array_read arr i = (if 0 \<le> i \<and> i < int (length arr) then arr ! nat i else None)"

definition array_write :: "'a option list \<Rightarrow> int \<Rightarrow> 'a \<Rightarrow> 'a option list" where
  "array_write arr i v =
     (if 0 \<le> i \<and> i < int (length arr) then arr[nat i := Some v] else arr)"

text \<open>
  The values read by \<open>for (int i = 0; i < result_count; i++) ... results[i]\<close>, in order.
\<close>

definition read_results :: "'a option list \<Rightarrow> c_int \<Rightarrow> 'a option list" where
  "read_results arr count = map (\<lambda>i. array_read arr (int i)) [0..<nat (sint count)]"

definition ANSI_RESET :: string where "ANSI_RESET = CHR 0x1B # ''[0m''"
definition ANSI_GREEN :: string where "ANSI_GREEN = CHR 0x1B # ''[32m''"
definition ANSI_YELLOW :: string where "ANSI_YELLOW = CHR 0x1B # ''[33m''"
definition ANSI_RED :: string where "ANSI_RED = CHR 0x1B # ''[31m''"
definition ANSI_GRAY :: string where "ANSI_GRAY = CHR 0x1B # ''[90m''"

definition INITIAL_RESULT_CAPACITY :: c_int where
  "INITIAL_RESULT_CAPACITY = 8"

text \<open>The two switches over a status; \<open>None\<close> (no enumerator) takes the default.\<close>

fun get_status_color :: "test_status option \<Rightarrow> string" where
  "get_status_color (Some STATUS_SUCCESS) = ANSI_GREEN"
| "get_status_color (Some STATUS_UNEXPECTED_OUTPUT) = ANSI_YELLOW"
| "get_status_color (Some STATUS_EXPECTED_BUILD_ERROR) = ANSI_GRAY"
| "get_status_color (Some STATUS_EXPECTED_RUNTIME_ERROR) = ANSI_GRAY"
| "get_status_color (Some STATUS_BUILD_ERROR) = ANSI_RED"
| "get_status_color (Some STATUS_RUNTIME_ERROR) = ANSI_RED"
| "get_status_color None = ANSI_RESET"

fun get_status_char :: "test_status option \<Rightarrow> char" where
  "get_status_char (Some STATUS_SUCCESS) = CHR ''K''"
| "get_status_char (Some STATUS_UNEXPECTED_OUTPUT) = CHR ''K''"
| "get_status_char (Some STATUS_EXPECTED_BUILD_ERROR) = CHR ''B''"
| "get_status_char (Some STATUS_BUILD_ERROR) = CHR ''B''"
| "get_status_char (Some STATUS_EXPECTED_RUNTIME_ERROR) = CHR ''R''"
| "get_status_char (Some STATUS_RUNTIME_ERROR) = CHR ''R''"
| "get_status_char None = CHR ''?''"

section \<open>Constructors\<close>

definition zero_stats :: test_stats where
  "zero_stats =
     \<lparr>success_count = 0, unexpected_output_count = 0, expected_build_error_count = 0,
      build_error_count = 0, expected_runtime_error_count = 0, runtime_error_count = 0\<rparr>"

definition test_runner_create :: "heap \<Rightarrow> 'w test_runner option \<times> heap" where
  "test_runner_create h =
     (let (got_runner, h1) = alloc h
      in if \<not> got_runner then (None, h1)
         else (Some \<lparr>root_suite = None, global_stats = zero_stats\<rparr>, h1))"

definition test_suite_create :: "heap \<Rightarrow> string \<Rightarrow> 'w test_suite option \<times> heap" where
  "test_suite_create h name =
     (let (got_suite, h1) = alloc h
      in if \<not> got_suite then (None, h1)
         else
           (let (got_name, h2) = alloc h1
            in if \<not> got_name then (None, h2)
               else (Some (Test_Suite name None None None zero_stats), h2)))"

definition test_case_create ::
  "heap \<Rightarrow> string \<Rightarrow> 'w test_func_t option \<Rightarrow> 'w test_case option \<times> heap" where
  "test_case_create h name func =
     (let (got_case, h1) = alloc h
      in if \<not> got_case then (None, h1)
         else
           (let (got_name, h2) = alloc h1
            in if \<not> got_name then (None, h2)
               else (Some (Test_Case name func [] 0 0 None), h2)))"

section \<open>Linking suites and cases\<close>

text \<open>
  The tail search \<open>while (current->next) current = current->next;\<close> followed by
  \<open>current->next = child\<close>, on the first node of a chain.
\<close>

fun link_suite :: "'w test_suite \<Rightarrow> 'w test_suite \<Rightarrow> 'w test_suite" where
  "link_suite (Test_Suite nm cs ch nxt st) child =
     Test_Suite nm cs ch
       (case nxt of None \<Rightarrow> Some child | Some current \<Rightarrow> Some (link_suite current child)) st"

fun link_case :: "'w test_case \<Rightarrow> 'w test_case \<Rightarrow> 'w test_case" where
  "link_case (Test_Case nm f rs cnt cap nxt) tc =
     Test_Case nm f rs cnt cap
       (case nxt of None \<Rightarrow> Some tc | Some current \<Rightarrow> Some (link_case current tc))"

fun test_suite_add_child ::
  "'w test_suite option \<Rightarrow> 'w test_suite option \<Rightarrow> 'w test_suite option" where
  "test_suite_add_child None child = None"
| "test_suite_add_child (Some parent) None = Some parent"
| "test_suite_add_child (Some (Test_Suite nm cs ch nxt st)) (Some child) =
     (case ch of
        None \<Rightarrow> Some (Test_Suite nm cs (Some child) nxt st)
      | Some first \<Rightarrow> Some (Test_Suite nm cs (Some (link_suite first child)) nxt st))"

fun test_suite_add_test_case ::
  "'w test_suite option \<Rightarrow> 'w test_case option \<Rightarrow> 'w test_suite option" where
  "test_suite_add_test_case None tc = None"
| "test_suite_add_test_case (Some suite) None = Some suite"
| "test_suite_add_test_case (Some (Test_Suite nm cs ch nxt st)) (Some tc) =
     (case cs of
        None \<Rightarrow> Some (Test_Suite nm (Some tc) ch nxt st)
      | Some first \<Rightarrow> Some (Test_Suite nm (Some (link_case first tc)) ch nxt st))"

fun test_runner_add_suite ::
  "'w test_runner option \<Rightarrow> 'w test_suite option \<Rightarrow> 'w test_runner option" where
  "test_runner_add_suite None suite = None"
| "test_runner_add_suite (Some runner) None = Some runner"
| "test_runner_add_suite (Some runner) (Some suite) =
     (case root_suite runner of
        None \<Rightarrow> Some (runner\<lparr>root_suite := Some suite\<rparr>)
      | Some first \<Rightarrow> Some (runner\<lparr>root_suite := Some (link_suite first suite)\<rparr>))"

section \<open>Recording results\<close>

text \<open>The store \<open>results[result_count] = status\<close> and the increment of \<open>result_count\<close>.\<close>

definition store_result :: "'w test_case \<Rightarrow> test_status \<Rightarrow> 'w test_case" where
  "store_result tc status =
     Test_Case (case_name tc) (test_func tc)
       (array_write (results tc) (sint (result_count tc)) status)
       (result_count tc + 1) (result_capacity tc) (case_next tc)"

text \<open>
  The new capacity:
  \<open>result_capacity == 0 ? INITIAL_RESULT_CAPACITY : result_capacity * 2\<close>.
\<close>

definition grown_capacity :: "c_int \<Rightarrow> c_int" where
  "grown_capacity capacity = (if capacity = 0 then INITIAL_RESULT_CAPACITY else capacity * 2)"

text \<open>
  \<open>test_case_add_result\<close> past its null guard, on the case the pointer refers to: the
  growth when the array is full, then the store. The result is the returned \<open>int\<close>, the
  case and the allocator.
\<close>

definition add_result :: "heap \<Rightarrow> 'w test_case \<Rightarrow> test_status \<Rightarrow> c_int \<times> 'w test_case \<times> heap" where
  "add_result h tc status =
     (if result_capacity tc \<le>s result_count tc then
        (let new_capacity = grown_capacity (result_capacity tc);
             (new_results, h') =
               realloc h (results tc) (scast new_capacity * sizeof_test_status_t)
         in case new_results of
              None \<Rightarrow> (- 1, tc, h')
            | Some arr \<Rightarrow>
                (0,
                 store_result
                   (Test_Case (case_name tc) (test_func tc) arr (result_count tc) new_capacity
                      (case_next tc))
                   status,
                 h'))
      else (0, store_result tc status, h))"

text \<open>\<open>test_case_add_result\<close> itself, on a pointer that may be \<open>NULL\<close>.\<close>

definition test_case_add_result ::
  "heap \<Rightarrow> 'w test_case option \<Rightarrow> test_status \<Rightarrow> c_int \<times> 'w test_case option \<times> heap" where
  "test_case_add_result h test_case status =
     (case test_case of
        None \<Rightarrow> (- 1, None, h)
      | Some tc \<Rightarrow> (let (r, tc', h') = add_result h tc status in (r, Some tc', h')))"

text \<open>
  The variadic batch helper. \<open>args\<close> are the variadic arguments that were passed;
  \<open>va_arg\<close> past the last of them is undefined, which is the result \<open>None\<close>. The loop
  \<open>for (i = 0; i < count; i++)\<close> runs \<open>nat (sint count)\<close> times.
\<close>

fun add_results_loop ::
  "nat \<Rightarrow> heap \<Rightarrow> 'w test_case option \<Rightarrow> test_status list \<Rightarrow>
   (c_int \<times> 'w test_case option \<times> heap) option" where
  "add_results_loop 0 h test_case args = Some (0, test_case, h)"
| "add_results_loop (Suc n) h test_case [] = None"
| "add_results_loop (Suc n) h test_case (status # args) =
     (case test_case_add_result h test_case status of
        (r, test_case', h') \<Rightarrow>
          if r \<noteq> 0 then Some (- 1, test_case', h')
          else add_results_loop n h' test_case' args)"

definition test_case_add_results_va ::
  "heap \<Rightarrow> 'w test_case option \<Rightarrow> c_int \<Rightarrow> test_status list \<Rightarrow>
   (c_int \<times> 'w test_case option \<times> heap) option" where
  "test_case_add_results_va h test_case count args =
     (if test_case = None \<or> count \<le>s 0 then Some (- 1, test_case, h)
      else add_results_loop (nat (sint count)) h test_case args)"

text \<open>The macro \<open>RESULTS(test_case, ...)\<close>: the count is the number of arguments.\<close>

definition RESULTS ::
  "heap \<Rightarrow> 'w test_case option \<Rightarrow> test_status list \<Rightarrow>
   (c_int \<times> 'w test_case option \<times> heap) option" where
  "RESULTS h test_case args =
     test_case_add_results_va h test_case (word_of_nat (length args)) args"

section \<open>Statistics\<close>

text \<open>The switch of the counting loop: one count goes up, or none for no enumerator.\<close>

fun count_status :: "test_stats \<Rightarrow> test_status option \<Rightarrow> test_stats" where
  "count_status st (Some STATUS_SUCCESS) = st\<lparr>success_count := success_count st + 1\<rparr>"
| "count_status st (Some STATUS_UNEXPECTED_OUTPUT) =
     st\<lparr>unexpected_output_count := unexpected_output_count st + 1\<rparr>"
| "count_status st (Some STATUS_EXPECTED_BUILD_ERROR) =
     st\<lparr>expected_build_error_count := expected_build_error_count st + 1\<rparr>"
| "count_status st (Some STATUS_BUILD_ERROR) =
     st\<lparr>build_error_count := build_error_count st + 1\<rparr>"
| "count_status st (Some STATUS_EXPECTED_RUNTIME_ERROR) =
     st\<lparr>expected_runtime_error_count := expected_runtime_error_count st + 1\<rparr>"
| "count_status st (Some STATUS_RUNTIME_ERROR) =
     st\<lparr>runtime_error_count := runtime_error_count st + 1\<rparr>"
| "count_status st None = st"

text \<open>The loop over the cases of a suite, counting every result read.\<close>

fun tally_cases :: "test_stats \<Rightarrow> 'w test_case option \<Rightarrow> test_stats" where
  "tally_cases st None = st"
| "tally_cases st (Some (Test_Case nm f rs cnt cap nxt)) =
     tally_cases (foldl count_status st (read_results rs cnt)) nxt"

text \<open>The six \<open>+=\<close> of the loop over the child suites.\<close>

definition add_stats :: "test_stats \<Rightarrow> test_stats \<Rightarrow> test_stats" where
  "add_stats st child =
     \<lparr>success_count = success_count st + success_count child,
      unexpected_output_count = unexpected_output_count st + unexpected_output_count child,
      expected_build_error_count =
        expected_build_error_count st + expected_build_error_count child,
      build_error_count = build_error_count st + build_error_count child,
      expected_runtime_error_count =
        expected_runtime_error_count st + expected_runtime_error_count child,
      runtime_error_count = runtime_error_count st + runtime_error_count child\<rparr>"

definition set_suite_next :: "'w test_suite \<Rightarrow> 'w test_suite option \<Rightarrow> 'w test_suite" where
  "set_suite_next s nxt = Test_Suite (suite_name s) (test_cases s) (child_suites s) nxt (stats s)"

text \<open>
  \<open>calculate_suite_stats\<close> on a suite (both callers pass a non-null pointer, so its null
  guard is never taken), and its loop over the child suites: the child is recomputed, its
  counts are added, and the loop goes on with the child's \<open>next\<close>, which the recursive
  call does not write.
\<close>

fun calculate_suite_stats :: "'w test_suite \<Rightarrow> 'w test_suite"
and add_child_stats ::
  "test_stats \<Rightarrow> 'w test_suite option \<Rightarrow> test_stats \<times> 'w test_suite option" where
  "calculate_suite_stats (Test_Suite nm cs ch nxt st) =
     (let (st', ch') = add_child_stats (tally_cases zero_stats cs) ch
      in Test_Suite nm cs ch' nxt st')"
| "add_child_stats st None = (st, None)"
| "add_child_stats st (Some (Test_Suite nm cs ch nxt st0)) =
     (let current = calculate_suite_stats (Test_Suite nm cs ch nxt st0);
          (st', nxt') = add_child_stats (add_stats st (stats current)) nxt
      in (st', Some (set_suite_next current nxt')))"

section \<open>Rendering\<close>

definition newline :: char where "newline = CHR 0x0A"

definition print_legend :: string where
  "print_legend =
     ANSI_GREEN @ ''K'' @ ANSI_RESET @ '' - success                '' @ ANSI_YELLOW @ ''K'' @ ANSI_RESET
       @ '' - unexpected output'' @ [newline]
     @ ANSI_GRAY @ ''B'' @ ANSI_RESET @ '' - expected build error   '' @ ANSI_RED @ ''B'' @ ANSI_RESET
       @ '' - build error'' @ [newline]
     @ ANSI_GRAY @ ''R'' @ ANSI_RESET @ '' - expected runtime error '' @ ANSI_RED @ ''R'' @ ANSI_RESET
       @ '' - runtime error'' @ [newline]
     @ [newline]"

text \<open>\<open>printf\<close>'s \<open>%d\<close> and \<open>%2d\<close> of an \<open>int\<close>.\<close>

fun decimal :: "nat \<Rightarrow> string" where
  "decimal n =
     (if n < 10 then [''0123456789'' ! n]
      else decimal (n div 10) @ [''0123456789'' ! (n mod 10)])"

definition printf_d :: "c_int \<Rightarrow> string" where
  "printf_d x = (if sint x < 0 then ''-'' @ decimal (nat (- sint x)) else decimal (nat (sint x)))"

definition printf_2d :: "c_int \<Rightarrow> string" where
  "printf_2d x = replicate (2 - length (printf_d x)) (CHR '' '') @ printf_d x"

definition print_stats :: "test_stats \<Rightarrow> string" where
  "print_stats st =
     ''K: '' @ ANSI_GREEN @ printf_2d (success_count st) @ ANSI_RESET
     @ ''/'' @ ANSI_YELLOW @ printf_d (unexpected_output_count st) @ ANSI_RESET
     @ ''  B: '' @ ANSI_GRAY @ printf_2d (expected_build_error_count st) @ ANSI_RESET
     @ ''/'' @ ANSI_RED @ printf_d (build_error_count st) @ ANSI_RESET
     @ ''  R: '' @ ANSI_GRAY @ printf_2d (expected_runtime_error_count st) @ ANSI_RESET
     @ ''/'' @ ANSI_RED @ printf_d (runtime_error_count st) @ ANSI_RESET"

text \<open>The box-drawing glyphs of the tree, as their UTF-8 bytes.\<close>

definition glyph_corner :: string where "glyph_corner = [CHR 0xE2, CHR 0x94, CHR 0x94]"
definition glyph_tee :: string where "glyph_tee = [CHR 0xE2, CHR 0x94, CHR 0x9C]"
definition glyph_dash :: string where "glyph_dash = [CHR 0xE2, CHR 0x94, CHR 0x80]"
definition glyph_bar :: string where "glyph_bar = [CHR 0xE2, CHR 0x94, CHR 0x82]"

definition print_result :: "test_status option \<Rightarrow> string" where
  "print_result r = get_status_color r @ [get_status_char r] @ ANSI_RESET @ '' ''"

text \<open>
  The loop over the cases in \<open>print_tree_node\<close>; \<open>no_children\<close> is
  \<open>suite->child_suites == NULL\<close>.
\<close>

fun print_test_cases :: "'w test_case option \<Rightarrow> string \<Rightarrow> bool \<Rightarrow> string" where
  "print_test_cases None new_prefix no_children = []"
| "print_test_cases (Some (Test_Case nm f rs cnt cap nxt)) new_prefix no_children =
     (let is_last_case = (nxt = None \<and> no_children)
      in new_prefix @ (if is_last_case then glyph_corner else glyph_tee) @ glyph_dash @ nm @ '': ''
         @ concat (map print_result (read_results rs cnt))
         @ [newline]
         @ print_test_cases nxt new_prefix no_children)"

text \<open>
  The padding of \<open>print_tree_node\<close>, computed as the C does:
  \<open>50 - strlen(prefix) - name_len - 2\<close> in \<open>size_t\<close>, cut to an \<open>int\<close>, at least 1.
\<close>

definition node_padding :: "string \<Rightarrow> string \<Rightarrow> c_int" where
  "node_padding prefix name =
     (let name_len = (word_of_nat (length name) :: c_int);
          padding =
            (ucast ((50 :: size_t) - word_of_nat (length prefix) - scast name_len - 2) :: c_int)
      in if padding <s 1 then 1 else padding)"

text \<open>\<open>snprintf\<close> into \<open>char new_prefix[256]\<close>: at most 255 bytes are kept.\<close>

definition child_prefix :: "string \<Rightarrow> bool \<Rightarrow> string" where
  "child_prefix prefix is_last =
     take 255 (prefix @ (if is_last then '' '' else glyph_bar) @ '' '')"

text \<open>\<open>print_tree_node\<close> and its loop over the child suites.\<close>

fun print_tree_node :: "'w test_suite \<Rightarrow> string \<Rightarrow> bool \<Rightarrow> c_int \<Rightarrow> string"
and print_child_suites :: "'w test_suite option \<Rightarrow> string \<Rightarrow> c_int \<Rightarrow> string" where
  "print_tree_node (Test_Suite nm cs ch nxt st) prefix is_last depth =
     prefix @ (if is_last then glyph_corner else glyph_tee) @ glyph_dash @ nm
     @ replicate (nat (sint (node_padding prefix nm))) (CHR '' '')
     @ print_stats st @ [newline]
     @ print_child_suites ch (child_prefix prefix is_last) (depth + 1)
     @ print_test_cases cs (child_prefix prefix is_last) (ch = None)"
| "print_child_suites None prefix depth = []"
| "print_child_suites (Some (Test_Suite nm cs ch nxt st)) prefix depth =
     print_tree_node (Test_Suite nm cs ch nxt st) prefix (nxt = None) depth
     @ print_child_suites nxt prefix depth"

text \<open>The two loops of \<open>print_test_results\<close> over the top-level suites.\<close>

fun recompute_roots :: "'w test_suite option \<Rightarrow> 'w test_suite option" where
  "recompute_roots None = None"
| "recompute_roots (Some (Test_Suite nm cs ch nxt st)) =
     Some (set_suite_next (calculate_suite_stats (Test_Suite nm cs ch nxt st))
             (recompute_roots nxt))"

fun print_roots :: "'w test_suite option \<Rightarrow> string" where
  "print_roots None = []"
| "print_roots (Some (Test_Suite nm cs ch nxt st)) =
     print_tree_node (Test_Suite nm cs ch nxt st) [] (nxt = None) 0 @ print_roots nxt"

text \<open>The result is the runner after the call and the text written to standard output.\<close>

definition print_test_results :: "'w test_runner option \<Rightarrow> 'w test_runner option \<times> string" where
  "print_test_results runner =
     (case runner of
        None \<Rightarrow> (None, [])
      | Some r \<Rightarrow>
          (case root_suite r of
             None \<Rightarrow> (Some r, [])
           | Some first \<Rightarrow>
               (let roots = recompute_roots (Some first)
                in (Some (r\<lparr>root_suite := roots\<rparr>), print_legend @ print_roots roots))))"

section \<open>Running\<close>

text \<open>
  What a run reads and writes besides the tree: the allocator, the state the test
  functions act on, and the text written to standard error.
\<close>

record 'w env =
  env_heap :: heap
  env_world :: 'w
  env_stderr :: string

text \<open>
  The body of the inner loop of \<open>test_runner_run\<close>, on the current case. The pointer is
  not \<open>NULL\<close> there, so the call of \<open>test_case_add_result\<close> passes the null guard.
\<close>

definition run_case :: "'w env \<Rightarrow> 'w test_case \<Rightarrow> 'w test_case \<times> 'w env" where
  "run_case e tc =
     (case test_func tc of
        None \<Rightarrow> (tc, e)
      | Some func \<Rightarrow>
          if result_count tc = 0 then
            (let (result, w') = func (env_world e);
                 (r, tc', h') = add_result (env_heap e) tc result
             in (tc',
                 \<lparr>env_heap = h', env_world = w',
                  env_stderr =
                    (if r \<noteq> 0 then
                       env_stderr e @ ''Warning: Failed to add test result for ''
                         @ case_name tc @ [newline]
                     else env_stderr e)\<rparr>))
          else (tc, e))"

definition set_case_next :: "'w test_case \<Rightarrow> 'w test_case option \<Rightarrow> 'w test_case" where
  "set_case_next tc nxt =
     Test_Case (case_name tc) (test_func tc) (results tc) (result_count tc) (result_capacity tc) nxt"

fun run_cases :: "'w env \<Rightarrow> 'w test_case option \<Rightarrow> 'w test_case option \<times> 'w env" where
  "run_cases e None = (None, e)"
| "run_cases e (Some (Test_Case nm f rs cnt cap nxt)) =
     (let (current, e1) = run_case e (Test_Case nm f rs cnt cap nxt);
          (nxt', e2) = run_cases e1 nxt
      in (Some (set_case_next current nxt'), e2))"

fun run_suites :: "'w env \<Rightarrow> 'w test_suite option \<Rightarrow> 'w test_suite option \<times> 'w env" where
  "run_suites e None = (None, e)"
| "run_suites e (Some (Test_Suite nm cs ch nxt st)) =
     (let (cs', e1) = run_cases e cs;
          (nxt', e2) = run_suites e1 nxt
      in (Some (Test_Suite nm cs' ch nxt' st), e2))"

text \<open>
  The result is the runner after the call, the environment after it, and the text
  written to standard output.
\<close>

definition test_runner_run ::
  "'w env \<Rightarrow> 'w test_runner option \<Rightarrow> 'w test_runner option \<times> 'w env \<times> string" where
  "test_runner_run e runner =
     (case runner of
        None \<Rightarrow> (None, e, [])
      | Some r \<Rightarrow>
          (let (roots, e') = run_suites e (root_suite r);
               (runner', out) = print_test_results (Some (r\<lparr>root_suite := roots\<rparr>))
           in (runner', e', out)))"

section \<open>Views of the tree used in the statements\<close>

text \<open>
  The nodes of a sibling chain in order, each cut off from its \<open>next\<close> (which, as a
  nested value, would repeat the rest of the chain).
\<close>

fun case_chain :: "'w test_case option \<Rightarrow> 'w test_case list" where
  "case_chain None = []"
| "case_chain (Some (Test_Case nm f rs cnt cap nxt)) =
     Test_Case nm f rs cnt cap None # case_chain nxt"

fun suite_chain :: "'w test_suite option \<Rightarrow> 'w test_suite list" where
  "suite_chain None = []"
| "suite_chain (Some (Test_Suite nm cs ch nxt st)) =
     Test_Suite nm cs ch None st # suite_chain nxt"

text \<open>The outcomes a case holds: the entries the loops over \<open>results\<close> read.\<close>

definition recorded :: "'w test_case \<Rightarrow> test_status option list" where
  "recorded tc = read_results (results tc) (result_count tc)"

text \<open>
  The invariant of a case: \<open>0 \<le> result_count \<le> result_capacity\<close>, and the array has
  \<open>result_capacity\<close> slots.
\<close>

definition case_inv :: "'w test_case \<Rightarrow> bool" where
  "case_inv tc \<longleftrightarrow>
     0 \<le>s result_count tc \<and> result_count tc \<le>s result_capacity tc
     \<and> int (length (results tc)) = sint (result_capacity tc)"

text \<open>
  Out-of-memory growth: the case is full, so \<open>test_case_add_result\<close> asks \<open>realloc\<close> for
  the grown array, and \<open>realloc\<close> returns \<open>NULL\<close>.
\<close>

definition growth_refused :: "heap \<Rightarrow> 'w test_case option \<Rightarrow> bool" where
  "growth_refused h test_case =
     (case test_case of
        None \<Rightarrow> False
      | Some tc \<Rightarrow>
          result_capacity tc \<le>s result_count tc
          \<and> fst (realloc h (results tc)
                 (scast (grown_capacity (result_capacity tc)) * sizeof_test_status_t)) = None)"

text \<open>
  The cases the public operations can produce: \<open>test_case_create\<close> makes one,
  \<open>test_case_add_result\<close> (alone, in a batch or in a run) changes its array and counts,
  and linking changes its \<open>next\<close>.
\<close>

inductive reachable_case :: "'w test_case \<Rightarrow> bool" where
  created: "test_case_create h name func = (Some tc, h') \<Longrightarrow> reachable_case tc"
| added: "reachable_case tc \<Longrightarrow> test_case_add_result h (Some tc) status = (r, Some tc', h')
     \<Longrightarrow> reachable_case tc'"
| linked: "reachable_case tc \<Longrightarrow> reachable_case (set_case_next tc nxt)"

text \<open>
  The cases of the subtree of a suite: its own, then those of its child suites and their
  descendants; and the same for a chain of sibling suites.
\<close>

fun subtree_cases :: "'w test_suite \<Rightarrow> 'w test_case list"
and forest_cases :: "'w test_suite option \<Rightarrow> 'w test_case list" where
  "subtree_cases (Test_Suite nm cs ch nxt st) = case_chain cs @ forest_cases ch"
| "forest_cases None = []"
| "forest_cases (Some (Test_Suite nm cs ch nxt st)) =
     subtree_cases (Test_Suite nm cs ch nxt st) @ forest_cases nxt"

text \<open>The suites of a subtree, the root first; and of a chain of siblings.\<close>

fun subtree_suites :: "'w test_suite \<Rightarrow> 'w test_suite list"
and forest_suites :: "'w test_suite option \<Rightarrow> 'w test_suite list" where
  "subtree_suites (Test_Suite nm cs ch nxt st) = Test_Suite nm cs ch nxt st # forest_suites ch"
| "forest_suites None = []"
| "forest_suites (Some (Test_Suite nm cs ch nxt st)) =
     subtree_suites (Test_Suite nm cs ch nxt st) @ forest_suites nxt"

text \<open>
  The number of recorded outcomes of one kind in a list of cases, and the six numbers
  as the \<open>int\<close> fields of a \<open>test_stats\<close>.
\<close>

definition outcome_count :: "test_status \<Rightarrow> 'w test_case list \<Rightarrow> nat" where
  "outcome_count k cases = count_list (concat (map recorded cases)) (Some k)"

definition stats_of :: "'w test_case list \<Rightarrow> test_stats" where
  "stats_of cases =
     \<lparr>success_count = word_of_nat (outcome_count STATUS_SUCCESS cases),
      unexpected_output_count = word_of_nat (outcome_count STATUS_UNEXPECTED_OUTPUT cases),
      expected_build_error_count = word_of_nat (outcome_count STATUS_EXPECTED_BUILD_ERROR cases),
      build_error_count = word_of_nat (outcome_count STATUS_BUILD_ERROR cases),
      expected_runtime_error_count =
        word_of_nat (outcome_count STATUS_EXPECTED_RUNTIME_ERROR cases),
      runtime_error_count = word_of_nat (outcome_count STATUS_RUNTIME_ERROR cases)\<rparr>"

text \<open>The count a \<open>test_stats\<close> keeps for one kind.\<close>

fun kind_count :: "test_stats \<Rightarrow> test_status \<Rightarrow> c_int" where
  "kind_count st STATUS_SUCCESS = success_count st"
| "kind_count st STATUS_UNEXPECTED_OUTPUT = unexpected_output_count st"
| "kind_count st STATUS_EXPECTED_BUILD_ERROR = expected_build_error_count st"
| "kind_count st STATUS_BUILD_ERROR = build_error_count st"
| "kind_count st STATUS_EXPECTED_RUNTIME_ERROR = expected_runtime_error_count st"
| "kind_count st STATUS_RUNTIME_ERROR = runtime_error_count st"

text \<open>What a recompute pass must not change in a suite: its name and its cases.\<close>

definition suite_shape :: "'w test_suite \<Rightarrow> string \<times> 'w test_case list" where
  "suite_shape S = (suite_name S, subtree_cases S)"

text \<open>A suite's \<open>stats\<close> are fresh when they are the counts over its subtree.\<close>

definition fresh :: "'w test_suite \<Rightarrow> bool" where
  "fresh S \<longleftrightarrow> stats S = stats_of (subtree_cases S)"

text \<open>
  The cases a run visits: those owned directly by the suites of the top-level chain, in
  the order of the traversal.
\<close>

definition top_cases :: "'w test_suite option \<Rightarrow> 'w test_case list" where
  "top_cases roots = concat (map (\<lambda>s. case_chain (test_cases s)) (suite_chain roots))"

text \<open>
  The loop body \<open>run_case\<close> applied to a list of cases in order, and the environment
  in which the \<open>i\<close>-th of them is reached.
\<close>

fun run_list :: "'w env \<Rightarrow> 'w test_case list \<Rightarrow> 'w test_case list \<times> 'w env" where
  "run_list e [] = ([], e)"
| "run_list e (c # cs) =
     (let (c', e1) = run_case e c;
          (cs', e2) = run_list e1 cs
      in (c' # cs', e2))"

definition env_before :: "'w env \<Rightarrow> 'w test_case list \<Rightarrow> nat \<Rightarrow> 'w env" where
  "env_before e cs i = snd (run_list e (take i cs))"

text \<open>
  Example trees and environments. \<open>stale_runner\<close> is what create, one \<open>test_case_add_result\<close>,
  \<open>test_suite_add_test_case\<close> and \<open>test_runner_add_suite\<close> build: one recorded outcome and
  \<open>stats\<close> still zero. \<open>math_runner\<close> has a suite with a case to run and a case with
  three outcomes recorded by hand, and a child suite with a case to run; each test
  function counts its calls in the state. In \<open>start_env\<close> every allocation is granted, in
  \<open>refusing_env\<close> the first one is refused.
\<close>

definition stale_runner :: "unit test_runner" where
  "stale_runner =
     \<lparr>root_suite = Some (Test_Suite ''S''
         (Some (Test_Case ''c'' None
            [Some STATUS_SUCCESS, None, None, None, None, None, None, None] 1 8 None))
         None None zero_stats),
      global_stats = zero_stats\<rparr>"

definition math_runner :: "nat test_runner" where
  "math_runner =
     \<lparr>root_suite = Some (Test_Suite ''Math''
         (Some (Test_Case ''Add'' (Some (\<lambda>calls. (STATUS_SUCCESS, calls + 1))) [] 0 0
            (Some (Test_Case ''Flaky'' (Some (\<lambda>calls. (STATUS_RUNTIME_ERROR, calls + 1)))
               [Some STATUS_SUCCESS, Some STATUS_UNEXPECTED_OUTPUT, Some STATUS_SUCCESS,
                None, None, None, None, None] 3 8 None))))
         (Some (Test_Suite ''Edge''
            (Some (Test_Case ''Overflow'' (Some (\<lambda>calls. (STATUS_BUILD_ERROR, calls + 1)))
               [] 0 0 None))
            None None zero_stats))
         None zero_stats),
      global_stats = zero_stats\<rparr>"

definition start_env :: "nat env" where
  "start_env = \<lparr>env_heap = [], env_world = 0, env_stderr = []\<rparr>"

definition refusing_env :: "nat env" where
  "refusing_env = \<lparr>env_heap = [False], env_world = 0, env_stderr = []\<rparr>"

text \<open>
  The state left by invoking, in order, the test function of each listed case that has
  one and has no recorded outcome, and of no other case.
\<close>

fun invocations :: "'w \<Rightarrow> 'w test_case list \<Rightarrow> 'w" where
  "invocations w [] = w"
| "invocations w (c # cs) =
     invocations
       (case test_func c of
          None \<Rightarrow> w
        | Some f \<Rightarrow> if result_count c = 0 then snd (f w) else w)
       cs"

text \<open>
  The line the renderer writes for a case: the prefix, a branch glyph, the name and the
  recorded outcomes. A text occurs in another when it is a contiguous part of it.
\<close>

definition case_line :: "string \<Rightarrow> string \<Rightarrow> 'w test_case \<Rightarrow> string" where
  "case_line new_prefix glyph c =
     new_prefix @ glyph @ glyph_dash @ case_name c @ '': ''
     @ concat (map print_result (recorded c)) @ [newline]"

abbreviation occurs_in :: "'a list \<Rightarrow> 'a list \<Rightarrow> bool" where
  "occurs_in xs ys \<equiv> \<exists>before after. ys = before @ xs @ after"

section \<open>Linking: null arguments and order\<close>

lemma suite_chain_link:
  "suite_chain (Some (link_suite first child)) = suite_chain (Some first) @ suite_chain (Some child)"
  by (induction first child rule: link_suite.induct) (auto split: option.splits)

lemma case_chain_link:
  "case_chain (Some (link_case first tc)) = case_chain (Some first) @ case_chain (Some tc)"
  by (induction first tc rule: link_case.induct) (auto split: option.splits)

lemma suite_chain_single: "suite_next c = None \<Longrightarrow> suite_chain (Some c) = [c]"
  by (cases c) simp

lemma case_chain_single: "case_next c = None \<Longrightarrow> case_chain (Some c) = [c]"
  by (cases c) simp

lemma add_child_null: "test_suite_add_child parent None = parent"
  by (cases parent) simp_all

lemma add_test_case_null: "test_suite_add_test_case parent None = parent"
  by (cases parent) simp_all

lemma add_suite_null: "test_runner_add_suite runner None = runner"
  by (cases runner) simp_all

lemma add_child_append:
  "\<exists>p'. test_suite_add_child (Some p) (Some c) = Some p'
     \<and> suite_chain (child_suites p') = suite_chain (child_suites p) @ suite_chain (Some c)
     \<and> suite_name p' = suite_name p \<and> test_cases p' = test_cases p
     \<and> suite_next p' = suite_next p \<and> stats p' = stats p"
  by (cases p; cases "child_suites p")
     (simp_all add: suite_chain_link del: suite_chain.simps(2))

lemma add_test_case_append:
  "\<exists>p'. test_suite_add_test_case (Some p) (Some k) = Some p'
     \<and> case_chain (test_cases p') = case_chain (test_cases p) @ case_chain (Some k)
     \<and> suite_name p' = suite_name p \<and> child_suites p' = child_suites p
     \<and> suite_next p' = suite_next p \<and> stats p' = stats p"
  by (cases p; cases "test_cases p")
     (simp_all add: case_chain_link del: case_chain.simps(2))

lemma add_suite_append:
  "\<exists>r'. test_runner_add_suite (Some r) (Some c) = Some r'
     \<and> suite_chain (root_suite r') = suite_chain (root_suite r) @ suite_chain (Some c)
     \<and> global_stats r' = global_stats r"
  by (cases "root_suite r")
     (simp_all add: suite_chain_link del: suite_chain.simps(2))

text \<open>
  C8. \<open>test_suite_add_child\<close>, \<open>test_suite_add_test_case\<close> and
  \<open>test_runner_add_suite\<close> return without writing anything when either pointer is
  \<open>NULL\<close> (they are \<open>void\<close>: there is no failure to report). With both pointers
  present, the parent's list afterwards is its list before followed by the chain that
  starts at the new node, which is the node alone when its \<open>next\<close> is \<open>NULL\<close>, as it is
  after creation; the parent's other fields are unchanged.
\<close>

theorem add_null_or_append:
  "test_suite_add_child None child = None
   \<and> test_suite_add_child parent None = parent
   \<and> test_suite_add_test_case None tc = None
   \<and> test_suite_add_test_case parent None = parent
   \<and> test_runner_add_suite None child = None
   \<and> test_runner_add_suite runner None = runner
   \<and> (\<exists>p'. test_suite_add_child (Some p) (Some c) = Some p'
          \<and> suite_chain (child_suites p') = suite_chain (child_suites p) @ suite_chain (Some c)
          \<and> suite_name p' = suite_name p \<and> test_cases p' = test_cases p
          \<and> suite_next p' = suite_next p \<and> stats p' = stats p)
   \<and> (\<exists>p'. test_suite_add_test_case (Some p) (Some k) = Some p'
          \<and> case_chain (test_cases p') = case_chain (test_cases p) @ case_chain (Some k)
          \<and> suite_name p' = suite_name p \<and> child_suites p' = child_suites p
          \<and> suite_next p' = suite_next p \<and> stats p' = stats p)
   \<and> (\<exists>r'. test_runner_add_suite (Some r) (Some c) = Some r'
          \<and> suite_chain (root_suite r') = suite_chain (root_suite r) @ suite_chain (Some c)
          \<and> global_stats r' = global_stats r)
   \<and> (suite_next c = None \<longrightarrow> suite_chain (Some c) = [c])
   \<and> (case_next k = None \<longrightarrow> case_chain (Some k) = [k])"
  using add_child_append [of p c] add_test_case_append [of p k] add_suite_append [of r c]
  by (simp add: add_child_null add_test_case_null add_suite_null suite_chain_single
      case_chain_single)

theorem add_null_or_append_witness:
  "test_suite_add_child (None :: unit test_suite option) (Some (Test_Suite ''a'' None None None zero_stats)) = None
   \<and> (\<exists>p'. test_suite_add_child
            (Some (Test_Suite ''p'' None (Some (Test_Suite ''a'' None None None zero_stats)) None zero_stats))
            (Some (Test_Suite ''b'' None None None zero_stats)) = Some (p' :: unit test_suite)
          \<and> suite_chain (child_suites p')
              = [Test_Suite ''a'' None None None zero_stats, Test_Suite ''b'' None None None zero_stats])"
  using add_null_or_append
    [of "Some (Test_Suite ''a'' None None None zero_stats)" None None None
        "Test_Suite ''p'' None (Some (Test_Suite ''a'' None None None zero_stats)) None zero_stats"
        "Test_Suite ''b'' None None None zero_stats :: unit test_suite"
        "Test_Case ''k'' None [] 0 0 None" "\<lparr>root_suite = None, global_stats = zero_stats\<rparr>"]
  by simp

section \<open>Word arithmetic of the growth\<close>

lemma sint_c_int_range:
  fixes c :: c_int
  shows "- 2147483648 \<le> sint c" "sint c < 2147483648"
  using sint_ge [of c] sint_lt [of c] by simp_all

lemma mod_neg_shift: "- m \<le> k \<Longrightarrow> k < 0 \<Longrightarrow> (k::int) mod m = k + m"
proof -
  assume a: "- m \<le> k" "k < 0"
  have "(k + m) mod m = k + m" using a by (intro mod_pos_pos_trivial) simp_all
  then show ?thesis by simp
qed

lemma mod_geq_shift: "m \<le> k \<Longrightarrow> k < 2 * m \<Longrightarrow> (k::int) mod m = k - m"
proof -
  assume a: "m \<le> k" "k < 2 * m"
  have "(k - m) mod m = k - m" using a by (intro mod_pos_pos_trivial) simp_all
  then show ?thesis by simp
qed

lemma sint_double_pos:
  fixes c :: c_int
  assumes "0 < sint c" "0 < sint (c * 2)"
  shows "sint (c * 2) = 2 * sint c"
proof -
  have r: "sint c < 2147483648" by (rule sint_c_int_range)
  have e: "sint (c * 2) = signed_take_bit 31 (sint c * 2)"
    by (simp add: sint_word_ariths)
  show ?thesis
  proof (cases "sint c < 1073741824")
    case True
    then have "signed_take_bit 31 (sint c * 2) = sint c * 2"
      using assms(1) by (intro signed_take_bit_int_eq_self) simp_all
    with e show ?thesis by simp
  next
    case False
    have "signed_take_bit (31::nat) (sint c * 2) = take_bit (Suc 31) (sint c * 2 + 2 ^ 31) - 2 ^ 31"
      by (rule signed_take_bit_eq_take_bit_shift)
    also have "take_bit (Suc 31) (sint c * 2 + 2 ^ 31) = (sint c * 2 + 2147483648) mod 4294967296"
      by (simp add: take_bit_eq_mod)
    also have "\<dots> = sint c * 2 + 2147483648 - 4294967296"
      using False r by (intro mod_geq_shift) simp_all
    finally have "sint (c * 2) < 0" using e r by simp
    with assms(2) show ?thesis by simp
  qed
qed

lemma scast_times_4:
  fixes n :: c_int
  shows "(scast n :: size_t) * 4 = word_of_int (sint n * 4)"
proof -
  have "(scast n :: size_t) = word_of_int (sint n)" by (rule scast_eq)
  then show ?thesis by (simp only: of_int_mult of_int_numeral)
qed

lemma uint_size_t_of_int:
  "uint (word_of_int k :: size_t) = k mod 18446744073709551616"
proof -
  have "uint (word_of_int k :: size_t) = take_bit LENGTH(64) k"
    by (rule uint_word_of_int_eq)
  also have "\<dots> = k mod 2 ^ 64"
    by (simp add: take_bit_eq_mod)
  also have "(2::int) ^ 64 = 18446744073709551616"
    by simp
  finally show ?thesis .
qed

lemma uint_scast_bytes:
  fixes n :: c_int
  shows "uint ((scast n :: size_t) * sizeof_test_status_t) = (sint n * 4) mod 18446744073709551616"
  unfolding sizeof_test_status_t_def scast_times_4 by (rule uint_size_t_of_int)

lemma ptrdiff_uint: "uint PTRDIFF_MAX = 9223372036854775807"
  by (simp add: PTRDIFF_MAX_def)


lemma scast_bytes_neg:
  fixes n :: c_int
  assumes "sint n < 0"
  shows "PTRDIFF_MAX < (scast n :: size_t) * sizeof_test_status_t"
proof -
  have r: "- 2147483648 \<le> sint n" by (rule sint_c_int_range)
  have "(sint n * 4) mod 18446744073709551616 = sint n * 4 + 18446744073709551616"
    using assms r by (intro mod_neg_shift) simp_all
  then have "uint ((scast n :: size_t) * sizeof_test_status_t) = sint n * 4 + 18446744073709551616"
    by (simp only: uint_scast_bytes)
  then show ?thesis
    using r by (simp add: word_less_def ptrdiff_uint)
qed

lemma scast_bytes_pos:
  fixes n :: c_int
  assumes "0 \<le> sint n"
  shows "unat ((scast n :: size_t) * sizeof_test_status_t) = 4 * nat (sint n)"
proof -
  have r: "sint n < 2147483648" by (rule sint_c_int_range)
  have "(sint n * 4) mod 18446744073709551616 = sint n * 4"
    using assms r by (intro mod_pos_pos_trivial) simp_all
  then have "uint ((scast n :: size_t) * sizeof_test_status_t) = sint n * 4"
    by (simp only: uint_scast_bytes)
  then show ?thesis
    using assms by (simp add: unat_eq_nat_uint nat_mult_distrib)
qed

lemma sint_succ:
  fixes c d :: c_int
  assumes "sint c < sint d"
  shows "sint (c + 1) = sint c + 1"
proof -
  have "sint d < 2147483648" "- 2147483648 \<le> sint c" by (rule sint_c_int_range)+
  then have "signed_take_bit 31 (sint c + 1) = sint c + 1"
    using assms by (intro signed_take_bit_int_eq_self) simp_all
  then show ?thesis by (simp add: sint_word_ariths)
qed

lemma sint_pos:
  fixes c :: c_int
  shows "0 \<le> sint c \<Longrightarrow> c \<noteq> 0 \<Longrightarrow> 0 < sint c"
  by (metis signed_eq_0_iff order_le_less)

lemma realloc_Some:
  assumes "realloc h old bytes = (Some arr, h')"
  shows "bytes \<noteq> 0" "\<not> PTRDIFF_MAX < bytes"
    "arr = take (unat bytes div 4) old @ replicate (unat bytes div 4 - length old) None"
  using assms
  by (auto simp: realloc_def sizeof_test_status_t_def Let_def split: if_splits prod.splits)

lemma grown_capacity_granted:
  fixes cap :: c_int
  assumes nonneg: "0 \<le> sint cap"
    and len: "int (length arr) = sint cap"
    and re: "realloc h arr (scast (grown_capacity cap) * sizeof_test_status_t) = (Some arr', h')"
  shows "sint (grown_capacity cap) = (if cap = 0 then 8 else 2 * sint cap)"
    and "arr' = arr @ replicate (nat (sint (grown_capacity cap)) - length arr) None"
    and "sint cap < sint (grown_capacity cap)"
proof -
  let ?n = "grown_capacity cap"
  let ?bytes = "(scast ?n :: size_t) * sizeof_test_status_t"
  note r = realloc_Some [OF re]
  have pos: "0 \<le> sint ?n"
    using r(2) scast_bytes_neg [of ?n] by fastforce
  have un: "unat ?bytes = 4 * nat (sint ?n)"
    using pos by (rule scast_bytes_pos)
  have "unat ?bytes \<noteq> 0"
    using r(1) by (simp add: unat_eq_0)
  with un pos have strict: "0 < sint ?n" by simp
  show g: "sint ?n = (if cap = 0 then 8 else 2 * sint cap)"
  proof (cases "cap = 0")
    case True
    then show ?thesis by (simp add: grown_capacity_def INITIAL_RESULT_CAPACITY_def)
  next
    case False
    with nonneg have "0 < sint cap" by (intro sint_pos)
    moreover have "0 < sint (cap * 2)"
      using strict False by (simp add: grown_capacity_def)
    ultimately have "sint (cap * 2) = 2 * sint cap" by (rule sint_double_pos)
    with False show ?thesis by (simp add: grown_capacity_def)
  qed
  show lt: "sint cap < sint ?n"
    using g nonneg sint_pos [of cap] by (cases "cap = 0") simp_all
  have slots: "unat ?bytes div 4 = nat (sint ?n)"
    using un by simp
  have "length arr \<le> nat (sint ?n)"
    using lt len by linarith
  then show "arr' = arr @ replicate (nat (sint ?n) - length arr) None"
    using r(3) slots by simp
qed

section \<open>Recording one result\<close>

lemma store_result_sel [simp]:
  "case_name (store_result tc s) = case_name tc"
  "test_func (store_result tc s) = test_func tc"
  "results (store_result tc s) = array_write (results tc) (sint (result_count tc)) s"
  "result_count (store_result tc s) = result_count tc + 1"
  "result_capacity (store_result tc s) = result_capacity tc"
  "case_next (store_result tc s) = case_next tc"
  by (simp_all add: store_result_def)

lemma sint_eqD:
  fixes a b :: c_int
  shows "sint a = sint b \<Longrightarrow> a = b"
  using word_eq_iff_signed by blast

lemma read_results_write:
  fixes cnt d :: c_int
  assumes "0 \<le> sint cnt" "sint cnt < int (length arr)" "sint cnt < sint d"
  shows "read_results (array_write arr (sint cnt) s) (cnt + 1) = read_results arr cnt @ [Some s]"
proof -
  let ?k = "nat (sint cnt)"
  have k: "?k < length arr" using assms by simp
  have "nat (sint (cnt + 1)) = Suc ?k"
    using sint_succ [OF assms(3)] assms(1) by simp
  moreover have "array_write arr (sint cnt) s = arr[?k := Some s]"
    using assms by (simp add: array_write_def)
  moreover have "map (\<lambda>i. array_read (arr[?k := Some s]) (int i)) [0..<?k]
      = map (\<lambda>i. array_read arr (int i)) [0..<?k]"
    by (rule map_cong) (simp_all add: array_read_def)
  moreover have "array_read (arr[?k := Some s]) (int ?k) = Some s"
    using k assms(1) by (simp add: array_read_def)
  ultimately show ?thesis
    by (simp add: read_results_def)
qed

lemma read_results_append:
  assumes "sint cnt \<le> int (length arr)"
  shows "read_results (arr @ xs) cnt = read_results arr cnt"
  unfolding read_results_def
  using assms by (intro map_cong) (auto simp: array_read_def nth_append)

lemma add_result_failed:
  assumes "add_result h tc s = (r, tc', h')" "r \<noteq> 0"
  shows "r = - 1" "tc' = tc" "growth_refused h (Some tc)"
  using assms
  by (auto simp: add_result_def growth_refused_def Let_def
           split: if_splits prod.splits option.splits)

lemma add_result_refused:
  assumes "growth_refused h (Some tc)"
  shows "fst (add_result h tc s) = - 1"
  using assms
  by (auto simp: add_result_def growth_refused_def Let_def
           split: if_splits prod.splits option.splits)

lemma add_result_ret: "fst (add_result h tc s) = 0 \<or> fst (add_result h tc s) = - 1"
  by (auto simp: add_result_def Let_def split: if_splits prod.splits option.splits)

lemma add_result_ok:
  assumes inv: "case_inv tc" and run: "add_result h tc s = (0, tc', h')"
  shows "case_inv tc'"
    and "recorded tc' = recorded tc @ [Some s]"
    and "sint (result_count tc') = sint (result_count tc) + 1"
    and "case_name tc' = case_name tc \<and> test_func tc' = test_func tc
         \<and> case_next tc' = case_next tc"
    and "if result_count tc = result_capacity tc
         then sint (result_capacity tc') = (if result_capacity tc = 0 then 8 else 2 * sint (result_capacity tc))
         else result_capacity tc' = result_capacity tc"
proof -
  let ?cnt = "result_count tc" and ?cap = "result_capacity tc"
  from inv have c0: "0 \<le> sint ?cnt" and cc: "sint ?cnt \<le> sint ?cap"
    and len: "int (length (results tc)) = sint ?cap"
    by (simp_all add: case_inv_def word_sle_eq)
  have "case_inv tc' \<and> recorded tc' = recorded tc @ [Some s]
      \<and> sint (result_count tc') = sint ?cnt + 1
      \<and> (case_name tc' = case_name tc \<and> test_func tc' = test_func tc
         \<and> case_next tc' = case_next tc)
      \<and> (if ?cnt = ?cap
         then sint (result_capacity tc') = (if ?cap = 0 then 8 else 2 * sint ?cap)
         else result_capacity tc' = ?cap)"
  proof (cases "?cap \<le>s ?cnt")
    case False
    then have lt: "sint ?cnt < sint ?cap" by (simp add: word_sle_eq)
    then have ne: "?cnt \<noteq> ?cap" by auto
    from False run have tc': "tc' = store_result tc s"
      by (simp add: add_result_def)
    have "sint (?cnt + 1) = sint ?cnt + 1" using lt by (rule sint_succ)
    moreover have "read_results (array_write (results tc) (sint ?cnt) s) (?cnt + 1)
        = read_results (results tc) ?cnt @ [Some s]"
      using c0 lt len by (intro read_results_write) simp_all
    ultimately show ?thesis
      using tc' lt c0 len ne
      by (simp add: case_inv_def word_sle_eq recorded_def array_write_def)
  next
    case True
    then have "sint ?cnt = sint ?cap" using cc by (simp add: word_sle_eq)
    then have eq: "?cnt = ?cap" by (rule sint_eqD)
    let ?n = "grown_capacity ?cap"
    from True run obtain arr where
      re: "realloc h (results tc) (scast ?n * sizeof_test_status_t) = (Some arr, h')"
      and tc': "tc' = store_result
          (Test_Case (case_name tc) (test_func tc) arr ?cnt ?n (case_next tc)) s"
      by (auto simp: add_result_def Let_def split: prod.splits option.splits)
    have cap0: "0 \<le> sint ?cap" using c0 cc by simp
    note g = grown_capacity_granted [OF cap0 len re]
    have lt: "sint ?cnt < sint ?n" using g(3) eq by simp
    have larr: "int (length arr) = sint ?n"
      using g(2) g(3) len cap0 by simp
    have "sint (?cnt + 1) = sint ?cnt + 1" using lt by (rule sint_succ)
    moreover have "read_results (array_write arr (sint ?cnt) s) (?cnt + 1)
        = read_results arr ?cnt @ [Some s]"
      using c0 lt larr by (intro read_results_write) simp_all
    moreover have "read_results arr ?cnt = read_results (results tc) ?cnt"
      unfolding g(2) using cc len by (intro read_results_append) simp
    ultimately show ?thesis
      using tc' lt c0 larr eq g(1)
      by (simp add: case_inv_def word_sle_eq recorded_def array_write_def)
  qed
  then show "case_inv tc'"
    and "recorded tc' = recorded tc @ [Some s]"
    and "sint (result_count tc') = sint (result_count tc) + 1"
    and "case_name tc' = case_name tc \<and> test_func tc' = test_func tc
         \<and> case_next tc' = case_next tc"
    and "if result_count tc = result_capacity tc
         then sint (result_capacity tc') = (if result_capacity tc = 0 then 8 else 2 * sint (result_capacity tc))
         else result_capacity tc' = result_capacity tc"
    by blast+
qed

lemma sint_of_nat_small:
  assumes "n < 2147483648"
  shows "sint (word_of_nat n :: c_int) = int n"
proof -
  have "(word_of_nat n :: c_int) = word_of_int (int n)" by simp
  then have "sint (word_of_nat n :: c_int) = signed_take_bit (LENGTH(32) - 1) (int n)"
    by (simp only: sint_sbintrunc')
  also have "\<dots> = int n"
    using assms by (intro signed_take_bit_int_eq_self) simp_all
  finally show ?thesis .
qed

lemma test_case_add_result_Some:
  "test_case_add_result h (Some tc) s =
     (fst (add_result h tc s), Some (fst (snd (add_result h tc s))), snd (snd (add_result h tc s)))"
  by (simp add: test_case_add_result_def split: prod.splits)

lemma test_case_add_result_None: "test_case_add_result h None s = (- 1, None, h)"
  by (simp add: test_case_add_result_def)

section \<open>The batch helper: rejected calls\<close>

text \<open>
  C9. \<open>test_case_add_results_va\<close> returns \<open>-1\<close> and leaves the case and the allocator
  as they were whenever the case pointer is \<open>NULL\<close> or the count is zero or negative; so
  an empty batch is an error.
\<close>

theorem add_results_va_rejects:
  "test_case = None \<or> count \<le>s 0 \<Longrightarrow>
     test_case_add_results_va h test_case count args = Some (- 1, test_case, h)"
  by (simp add: test_case_add_results_va_def)

theorem add_results_va_rejects_witness:
  "((0 :: c_int) \<le>s 0)
   \<and> test_case_add_results_va [] (Some (Test_Case ''t'' None [] 0 0 None :: unit test_case)) 0 []
       = Some (- 1, Some (Test_Case ''t'' None [] 0 0 None), [])
   \<and> RESULTS [] (Some (Test_Case ''t'' None [] 0 0 None :: unit test_case)) []
       = Some (- 1, Some (Test_Case ''t'' None [] 0 0 None), [])"
  using add_results_va_rejects
    [of "Some (Test_Case ''t'' None [] 0 0 None :: unit test_case)" 0 "[]" "[]"]
  by (simp add: RESULTS_def)

section \<open>Failure of a single append\<close>

text \<open>
  C5, as stated, fails: \<open>test_case_add_result\<close> also returns \<open>-1\<close> for a \<open>NULL\<close> case, where
  no growth of the array is attempted.
\<close>

theorem add_result_null_fails:
  "fst (test_case_add_result [] (None :: unit test_case option) STATUS_SUCCESS) \<noteq> 0
   \<and> \<not> growth_refused [] (None :: unit test_case option)"
  by (simp add: test_case_add_result_def growth_refused_def)

text \<open>
  C5, amended. \<open>test_case_add_result\<close> returns \<open>0\<close> or \<open>-1\<close>; it returns \<open>-1\<close> exactly when
  the case pointer is \<open>NULL\<close> or the growth of the full array is refused by \<open>realloc\<close>;
  and when it fails the case is what it was: same array, same \<open>result_count\<close>, same
  \<open>result_capacity\<close>.
\<close>

theorem add_result_failure:
  "test_case_add_result h test_case status = (r, test_case', h') \<Longrightarrow>
     (r = 0 \<or> r = - 1)
     \<and> (r \<noteq> 0 \<longleftrightarrow> test_case = None \<or> growth_refused h test_case)
     \<and> (r \<noteq> 0 \<longrightarrow> test_case' = test_case)"
proof (cases test_case)
  case None
  assume "test_case_add_result h test_case status = (r, test_case', h')"
  with None show ?thesis by (auto simp: test_case_add_result_None)
next
  case (Some tc)
  assume a: "test_case_add_result h test_case status = (r, test_case', h')"
  obtain r0 tc0 h0 where e: "add_result h tc status = (r0, tc0, h0)"
    by (cases "add_result h tc status") auto
  with a Some have r: "r = r0" "test_case' = Some tc0" "h' = h0"
    by (simp_all add: test_case_add_result_Some)
  show ?thesis
    using add_result_failed [OF e] add_result_refused [of h tc status]
      add_result_ret [of h tc status] e r Some
    by auto
qed

lemma realloc_first_refused:
  "realloc [False] ([] :: test_status option list) (scast (grown_capacity (0 :: c_int)) * sizeof_test_status_t)
     = (None, [])"
proof -
  have "(scast (8 :: c_int) :: size_t) * 4 = 32" by simp
  moreover have "\<not> PTRDIFF_MAX < 32"
    by (simp add: word_less_def ptrdiff_uint)
  ultimately show ?thesis
    by (simp add: realloc_def grown_capacity_def INITIAL_RESULT_CAPACITY_def
        sizeof_test_status_t_def)
qed

theorem add_result_failure_witness:
  "test_case_add_result [False] (Some (Test_Case ''t'' None [] 0 0 None :: unit test_case))
       STATUS_SUCCESS
     = (- 1, Some (Test_Case ''t'' None [] 0 0 None), [])
   \<and> growth_refused [False] (Some (Test_Case ''t'' None [] 0 0 None :: unit test_case))"
proof -
  let ?tc = "Test_Case ''t'' None [] 0 0 None :: unit test_case"
  have run: "test_case_add_result [False] (Some ?tc) STATUS_SUCCESS = (- 1, Some ?tc, [])"
    using realloc_first_refused
    by (simp add: test_case_add_result_def add_result_def)
  from add_result_failure [OF run] run show ?thesis by simp
qed

section \<open>The invariant of a case\<close>

text \<open>
  C10. \<open>test_case_create\<close> yields a case with \<open>result_count = result_capacity = 0\<close> and the
  \<open>NULL\<close> array, which satisfies the invariant. \<open>test_case_add_result\<close> preserves the
  invariant, whether it succeeds or fails; the capacity changes only on a successful
  append to a full case, from 0 to 8 and otherwise to its double. Hence every case the
  public operations can produce satisfies the invariant. (A capacity whose double would
  not fit an \<open>int\<close> asks \<open>realloc\<close> for more than \<open>PTRDIFF_MAX\<close> bytes, which fails.)
\<close>

theorem case_invariant:
  "(test_case_create h0 name func = (Some tc0, h1) \<longrightarrow>
      result_count tc0 = 0 \<and> result_capacity tc0 = 0 \<and> results tc0 = [] \<and> case_inv tc0)
   \<and> (case_inv tc \<and> test_case_add_result h (Some tc) status = (r, Some tc', h') \<longrightarrow>
        case_inv tc'
        \<and> (if r = 0 \<and> result_count tc = result_capacity tc
            then sint (result_capacity tc')
                 = (if result_capacity tc = 0 then 8 else 2 * sint (result_capacity tc))
            else result_capacity tc' = result_capacity tc))
   \<and> (reachable_case t \<longrightarrow> case_inv t)"
proof (intro conjI impI)
  assume "test_case_create h0 name func = (Some tc0, h1)"
  then have "tc0 = Test_Case name func [] 0 0 None"
    by (auto simp: test_case_create_def Let_def split: prod.splits if_splits)
  then show "result_count tc0 = 0" "result_capacity tc0 = 0" "results tc0 = []" "case_inv tc0"
    by (simp_all add: case_inv_def)
next
  assume a: "case_inv tc \<and> test_case_add_result h (Some tc) status = (r, Some tc', h')"
  then have inv: "case_inv tc" and e: "add_result h tc status = (r, tc', h')"
    by (simp_all add: test_case_add_result_Some prod_eq_iff)
  have "case_inv tc'
        \<and> (if r = 0 \<and> result_count tc = result_capacity tc
            then sint (result_capacity tc')
                 = (if result_capacity tc = 0 then 8 else 2 * sint (result_capacity tc))
            else result_capacity tc' = result_capacity tc)"
  proof (cases "r = 0")
    case True
    with e have e0: "add_result h tc status = (0, tc', h')" by simp
    from add_result_ok(1,5) [OF inv e0] True show ?thesis by auto
  next
    case False
    from add_result_failed(2) [OF e False] inv False show ?thesis by simp
  qed
  then show "case_inv tc'"
    and "if r = 0 \<and> result_count tc = result_capacity tc
            then sint (result_capacity tc')
                 = (if result_capacity tc = 0 then 8 else 2 * sint (result_capacity tc))
            else result_capacity tc' = result_capacity tc"
    by blast+
next
  assume "reachable_case t"
  then show "case_inv t"
  proof (induction rule: reachable_case.induct)
    case (created h name func tc h')
    then have "tc = Test_Case name func [] 0 0 None"
      by (auto simp: test_case_create_def Let_def split: prod.splits if_splits)
    then show ?case by (simp add: case_inv_def)
  next
    case (added tc h status r tc' h')
    then have e: "add_result h tc status = (r, tc', h')"
      by (simp add: test_case_add_result_Some prod_eq_iff)
    show ?case
    proof (cases "r = 0")
      case True
      with e have "add_result h tc status = (0, tc', h')" by simp
      from add_result_ok(1) [OF added.IH this] show ?thesis .
    next
      case False
      from add_result_failed(2) [OF e False] added.IH show ?thesis by simp
    qed
  next
    case (linked tc nxt)
    then show ?case by (simp add: case_inv_def set_case_next_def)
  qed
qed

lemma realloc_first_granted:
  "realloc [] ([] :: test_status option list) (scast (grown_capacity (0 :: c_int)) * sizeof_test_status_t)
     = (Some (replicate 8 None), [])"
proof -
  have "(scast (8 :: c_int) :: size_t) * 4 = 32" by simp
  moreover have "\<not> PTRDIFF_MAX < 32"
    by (simp add: word_less_def ptrdiff_uint)
  ultimately show ?thesis
    by (simp add: realloc_def grown_capacity_def INITIAL_RESULT_CAPACITY_def
        sizeof_test_status_t_def)
qed

lemma add_result_fresh:
  "add_result [] (Test_Case nm f [] 0 0 None) s
     = (0, Test_Case nm f ((replicate 8 None)[0 := Some s]) 1 8 None, [])"
  using realloc_first_granted
  by (simp add: add_result_def store_result_def array_write_def grown_capacity_def
      INITIAL_RESULT_CAPACITY_def)

theorem case_invariant_witness:
  "test_case_create [] ''t'' None = (Some (Test_Case ''t'' None [] 0 0 None :: unit test_case), [])
   \<and> case_inv (Test_Case ''t'' None [] 0 0 None :: unit test_case)
   \<and> test_case_add_result [] (Some (Test_Case ''t'' None [] 0 0 None :: unit test_case))
        STATUS_SUCCESS
      = (0, Some (Test_Case ''t'' None ((replicate 8 None)[0 := Some STATUS_SUCCESS]) 1 8 None), [])
   \<and> case_inv (Test_Case ''t'' None ((replicate 8 None)[0 := Some STATUS_SUCCESS]) 1 8 None
        :: unit test_case)
   \<and> reachable_case (Test_Case ''t'' None ((replicate 8 None)[0 := Some STATUS_SUCCESS]) 1 8 None
        :: unit test_case)"
proof -
  let ?t0 = "Test_Case ''t'' None [] 0 0 None :: unit test_case"
  let ?t1 = "Test_Case ''t'' None ((replicate 8 None)[0 := Some STATUS_SUCCESS]) 1 8 None
    :: unit test_case"
  have c: "test_case_create [] ''t'' None = (Some ?t0, [])"
    by (simp add: test_case_create_def)
  have a: "test_case_add_result [] (Some ?t0) STATUS_SUCCESS = (0, Some ?t1, [])"
    by (simp add: test_case_add_result_Some add_result_fresh)
  have r: "reachable_case ?t1"
    by (rule reachable_case.added [OF reachable_case.created [OF c] a])
  from case_invariant [of "[]" "''t''" None ?t0 "[]" ?t0 "[]" STATUS_SUCCESS 0 ?t1 "[]" ?t1] c a r
  show ?thesis by simp
qed

section \<open>The batch helper: appends\<close>

lemma recorded_empty: "result_count tc = 0 \<Longrightarrow> recorded tc = []"
  by (simp add: recorded_def read_results_def)

lemma test_case_add_result_ok:
  assumes "case_inv tc" "test_case_add_result h (Some tc) s = (0, p, h')"
  shows "\<exists>tc'. p = Some tc' \<and> case_inv tc' \<and> recorded tc' = recorded tc @ [Some s]"
proof -
  from assms(2) have "add_result h tc s = (0, fst (snd (add_result h tc s)), h')"
    and "p = Some (fst (snd (add_result h tc s)))"
    by (simp_all add: test_case_add_result_Some prod_eq_iff)
  with add_result_ok(1,2) [OF assms(1)] show ?thesis by blast
qed

text \<open>
  C7. On a case with no outcome, when the two single appends of \<open>STATUS_SUCCESS\<close> and then
  \<open>STATUS_RUNTIME_ERROR\<close> both succeed (no allocation failure), the batch call with these
  two arguments returns what the second append returns: \<open>0\<close>, the same case and the same
  allocator; the case then holds exactly the two outcomes, in order.
\<close>

theorem batch_pair_is_two_appends:
  assumes "case_inv tc" "result_count tc = 0"
    and "test_case_add_result h (Some tc) STATUS_SUCCESS = (0, tc1, h1)"
    and "test_case_add_result h1 tc1 STATUS_RUNTIME_ERROR = (0, tc2, h2)"
  shows "test_case_add_results_va h (Some tc) 2 [STATUS_SUCCESS, STATUS_RUNTIME_ERROR]
           = Some (0, tc2, h2)
     \<and> RESULTS h (Some tc) [STATUS_SUCCESS, STATUS_RUNTIME_ERROR] = Some (0, tc2, h2)
     \<and> (\<exists>t. tc2 = Some t
            \<and> recorded t = [Some STATUS_SUCCESS, Some STATUS_RUNTIME_ERROR])"
proof -
  have two: "\<not> (2 :: c_int) \<le>s 0" "nat (sint (2 :: c_int)) = Suc (Suc 0)"
    by (simp_all add: word_sle_eq)
  have va: "test_case_add_results_va h (Some tc) 2 [STATUS_SUCCESS, STATUS_RUNTIME_ERROR]
           = Some (0, tc2, h2)"
    using assms(3,4) two by (simp add: test_case_add_results_va_def numeral_2_eq_2)
  from test_case_add_result_ok [OF assms(1,3)] obtain t1 where
    t1: "tc1 = Some t1" "case_inv t1" "recorded t1 = recorded tc @ [Some STATUS_SUCCESS]"
    by blast
  from test_case_add_result_ok [OF t1(2)] assms(4) t1(1) obtain t2 where
    t2: "tc2 = Some t2" "recorded t2 = recorded t1 @ [Some STATUS_RUNTIME_ERROR]"
    by blast
  from va t1 t2 recorded_empty [OF assms(2)] show ?thesis
    by (simp add: RESULTS_def)
qed

theorem batch_pair_is_two_appends_witness:
  "\<exists>t1 t2 :: unit test_case.
     test_case_add_result [] (Some (Test_Case ''t'' None [] 0 0 None)) STATUS_SUCCESS
       = (0, Some t1, [])
     \<and> test_case_add_result [] (Some t1) STATUS_RUNTIME_ERROR = (0, Some t2, [])
     \<and> RESULTS [] (Some (Test_Case ''t'' None [] 0 0 None))
          [STATUS_SUCCESS, STATUS_RUNTIME_ERROR] = Some (0, Some t2, [])
     \<and> recorded t2 = [Some STATUS_SUCCESS, Some STATUS_RUNTIME_ERROR]"
proof -
  let ?t0 = "Test_Case ''t'' None [] 0 0 None :: unit test_case"
  let ?t1 = "Test_Case ''t'' None ((replicate 8 None)[0 := Some STATUS_SUCCESS]) 1 8 None
    :: unit test_case"
  let ?t2 = "store_result ?t1 STATUS_RUNTIME_ERROR"
  have i: "case_inv ?t0" "result_count ?t0 = 0" by (simp_all add: case_inv_def)
  have a: "test_case_add_result [] (Some ?t0) STATUS_SUCCESS = (0, Some ?t1, [])"
    by (simp add: test_case_add_result_Some add_result_fresh)
  have "\<not> (8 :: c_int) \<le>s 1" by (simp add: word_sle_eq)
  then have b: "test_case_add_result [] (Some ?t1) STATUS_RUNTIME_ERROR = (0, Some ?t2, [])"
    by (simp add: test_case_add_result_Some add_result_def)
  from batch_pair_is_two_appends [OF i a b] a b show ?thesis by auto
qed

lemma add_results_loop_all:
  assumes "case_inv tc"
  shows "\<exists>r tc' h'.
     add_results_loop (length args) h (Some tc) args = Some (r, Some tc', h')
     \<and> ((r = 0 \<and> recorded tc' = recorded tc @ map Some args)
        \<or> (r = - 1
           \<and> (\<exists>k hk. k < length args
                \<and> add_results_loop k h (Some tc) args = Some (0, Some tc', hk)
                \<and> test_case_add_result hk (Some tc') (args ! k) = (- 1, Some tc', h')
                \<and> recorded tc' = recorded tc @ map Some (take k args))))"
  using assms
proof (induction args arbitrary: h tc)
  case Nil
  then show ?case by simp
next
  case (Cons x xs)
  obtain r1 t1 h1 where e: "add_result h tc x = (r1, t1, h1)"
    by (cases "add_result h tc x") auto
  show ?case
  proof (cases "r1 = 0")
    case False
    from add_result_failed(1,2) [OF e False] e
    have f: "test_case_add_result h (Some tc) x = (- 1, Some tc, h1)"
      by (simp add: test_case_add_result_Some)
    then have "add_results_loop (length (x # xs)) h (Some tc) (x # xs) = Some (- 1, Some tc, h1)"
      by simp
    moreover have "add_results_loop 0 h (Some tc) (x # xs) = Some (0, Some tc, h)"
      by simp
    ultimately show ?thesis
      using f by (intro exI [of _ "- 1"] exI [of _ tc] exI [of _ h1] conjI disjI2 exI [of _ 0] exI [of _ h])
        simp_all
  next
    case True
    with e have e0: "add_result h tc x = (0, t1, h1)" by simp
    then have s: "test_case_add_result h (Some tc) x = (0, Some t1, h1)"
      by (simp add: test_case_add_result_Some)
    note ok = add_result_ok(1,2) [OF Cons.prems e0]
    from Cons.IH [OF ok(1), of h1] obtain r tc' h' where
      run: "add_results_loop (length xs) h1 (Some t1) xs = Some (r, Some tc', h')"
      and alt: "(r = 0 \<and> recorded tc' = recorded t1 @ map Some xs)
        \<or> (r = - 1
           \<and> (\<exists>k hk. k < length xs
                \<and> add_results_loop k h1 (Some t1) xs = Some (0, Some tc', hk)
                \<and> test_case_add_result hk (Some tc') (xs ! k) = (- 1, Some tc', h')
                \<and> recorded tc' = recorded t1 @ map Some (take k xs)))"
      by blast
    have whole: "add_results_loop (length (x # xs)) h (Some tc) (x # xs) = Some (r, Some tc', h')"
      using s run by simp
    from alt show ?thesis
    proof
      assume "r = 0 \<and> recorded tc' = recorded t1 @ map Some xs"
      with whole ok(2) show ?thesis by simp
    next
      assume "r = - 1
           \<and> (\<exists>k hk. k < length xs
                \<and> add_results_loop k h1 (Some t1) xs = Some (0, Some tc', hk)
                \<and> test_case_add_result hk (Some tc') (xs ! k) = (- 1, Some tc', h')
                \<and> recorded tc' = recorded t1 @ map Some (take k xs))"
      then obtain k hk where r: "r = - 1" and k: "k < length xs"
        and p: "add_results_loop k h1 (Some t1) xs = Some (0, Some tc', hk)"
        and f: "test_case_add_result hk (Some tc') (xs ! k) = (- 1, Some tc', h')"
        and l: "recorded tc' = recorded t1 @ map Some (take k xs)"
        by blast
      have "add_results_loop (Suc k) h (Some tc) (x # xs) = Some (0, Some tc', hk)"
        using s p by simp
      with whole r k f l ok(2) show ?thesis
        by (intro exI [of _ "- 1"] exI [of _ tc'] exI [of _ h'] conjI disjI2
            exI [of _ "Suc k"] exI [of _ hk]) simp_all
    qed
  qed
qed

text \<open>
  C6. For a case (satisfying its invariant) and a non-empty sequence of outcomes passed
  with its length as the count, the batch helper ends in one of two ways. Either it
  returns \<open>0\<close> and every outcome was appended. Or it returns \<open>-1\<close>: for some \<open>k\<close>, the first
  \<open>k\<close> appends succeeded, the append of outcome \<open>k\<close> failed, the call stopped there (the
  case and the allocator are those left by the failing append), and the \<open>k\<close> outcomes
  appended before it are recorded after the ones the case held.
\<close>

theorem batch_stops_at_first_failure:
  assumes "case_inv tc" "args \<noteq> []" "length args < 2147483648"
  shows "\<exists>r tc' h'.
     RESULTS h (Some tc) args = Some (r, Some tc', h')
     \<and> test_case_add_results_va h (Some tc) (word_of_nat (length args)) args
         = Some (r, Some tc', h')
     \<and> ((r = 0 \<and> recorded tc' = recorded tc @ map Some args)
        \<or> (r = - 1
           \<and> (\<exists>k hk. k < length args
                \<and> add_results_loop k h (Some tc) args = Some (0, Some tc', hk)
                \<and> test_case_add_result hk (Some tc') (args ! k) = (- 1, Some tc', h')
                \<and> recorded tc' = recorded tc @ map Some (take k args))))"
proof -
  have s: "sint (word_of_nat (length args) :: c_int) = int (length args)"
    using assms(3) by (rule sint_of_nat_small)
  with assms(2) have "\<not> (word_of_nat (length args) :: c_int) \<le>s 0"
    by (simp add: word_sle_eq)
  with s have "test_case_add_results_va h (Some tc) (word_of_nat (length args)) args
      = add_results_loop (length args) h (Some tc) args"
    by (simp add: test_case_add_results_va_def)
  with add_results_loop_all [OF assms(1), of args h] show ?thesis
    by (simp add: RESULTS_def)
qed

theorem batch_stops_at_first_failure_witness:
  "case_inv (Test_Case ''t'' None
       [Some STATUS_SUCCESS, Some STATUS_SUCCESS, Some STATUS_SUCCESS, Some STATUS_SUCCESS,
        Some STATUS_SUCCESS, Some STATUS_SUCCESS, Some STATUS_SUCCESS, None] 7 8 None
       :: unit test_case)
   \<and> RESULTS [False]
        (Some (Test_Case ''t'' None
          [Some STATUS_SUCCESS, Some STATUS_SUCCESS, Some STATUS_SUCCESS, Some STATUS_SUCCESS,
           Some STATUS_SUCCESS, Some STATUS_SUCCESS, Some STATUS_SUCCESS, None] 7 8 None
          :: unit test_case))
        [STATUS_BUILD_ERROR, STATUS_RUNTIME_ERROR]
      = Some (- 1,
          Some (Test_Case ''t'' None
            [Some STATUS_SUCCESS, Some STATUS_SUCCESS, Some STATUS_SUCCESS, Some STATUS_SUCCESS,
             Some STATUS_SUCCESS, Some STATUS_SUCCESS, Some STATUS_SUCCESS,
             Some STATUS_BUILD_ERROR] 8 8 None),
          [])
   \<and> (\<exists>r tc' h'.
        RESULTS [False]
          (Some (Test_Case ''t'' None
            [Some STATUS_SUCCESS, Some STATUS_SUCCESS, Some STATUS_SUCCESS, Some STATUS_SUCCESS,
             Some STATUS_SUCCESS, Some STATUS_SUCCESS, Some STATUS_SUCCESS, None] 7 8 None
            :: unit test_case))
          [STATUS_BUILD_ERROR, STATUS_RUNTIME_ERROR]
        = Some (r, Some tc', h')
        \<and> r = - 1
        \<and> recorded tc'
          = recorded (Test_Case ''t'' None
              [Some STATUS_SUCCESS, Some STATUS_SUCCESS, Some STATUS_SUCCESS,
               Some STATUS_SUCCESS, Some STATUS_SUCCESS, Some STATUS_SUCCESS,
               Some STATUS_SUCCESS, None] 7 8 None :: unit test_case)
            @ [Some STATUS_BUILD_ERROR])"
proof -
  let ?arr = "[Some STATUS_SUCCESS, Some STATUS_SUCCESS, Some STATUS_SUCCESS, Some STATUS_SUCCESS,
        Some STATUS_SUCCESS, Some STATUS_SUCCESS, Some STATUS_SUCCESS, None]"
  let ?arr' = "[Some STATUS_SUCCESS, Some STATUS_SUCCESS, Some STATUS_SUCCESS, Some STATUS_SUCCESS,
        Some STATUS_SUCCESS, Some STATUS_SUCCESS, Some STATUS_SUCCESS, Some STATUS_BUILD_ERROR]"
  let ?tc = "Test_Case ''t'' None ?arr 7 8 None :: unit test_case"
  let ?tc' = "Test_Case ''t'' None ?arr' 8 8 None :: unit test_case"
  have inv: "case_inv ?tc"
    by (simp add: case_inv_def word_sle_eq)
  have first: "add_result [False] ?tc STATUS_BUILD_ERROR = (0, ?tc', [False])"
    by (simp add: add_result_def store_result_def array_write_def word_sle_eq)
  have "(scast (16 :: c_int) :: size_t) * 4 = 64" by simp
  moreover have "\<not> PTRDIFF_MAX < 64"
    by (simp add: word_less_def ptrdiff_uint)
  ultimately have re: "realloc [False] ?arr'
      (scast (grown_capacity (8 :: c_int)) * sizeof_test_status_t) = (None, [])"
    by (simp add: realloc_def grown_capacity_def sizeof_test_status_t_def)
  have second: "add_result [False] ?tc' STATUS_RUNTIME_ERROR = (- 1, ?tc', [])"
    using re by (simp add: add_result_def word_sle_eq)
  have two: "\<not> (2 :: c_int) \<le>s 0" "nat (sint (2 :: c_int)) = Suc (Suc 0)"
    by (simp_all add: word_sle_eq)
  have run: "RESULTS [False] (Some ?tc) [STATUS_BUILD_ERROR, STATUS_RUNTIME_ERROR]
      = Some (- 1, Some ?tc', [])"
    using first second two
    by (simp add: RESULTS_def test_case_add_results_va_def test_case_add_result_Some
        numeral_2_eq_2)
  have rec: "recorded ?tc' = recorded ?tc @ [Some STATUS_BUILD_ERROR]"
    using add_result_ok(2) [OF inv first] .
  from batch_stops_at_first_failure [OF inv, of "[STATUS_BUILD_ERROR, STATUS_RUNTIME_ERROR]" "[False]"]
    inv run rec
  show ?thesis by simp
qed

section \<open>The recompute pass\<close>

lemma kind_count_count_status:
  "kind_count (count_status st x) k = kind_count st k + (if x = Some k then 1 else 0)"
  by (cases x; cases k; cases "the x") simp_all

lemma kind_count_foldl:
  "kind_count (foldl count_status st xs) k = kind_count st k + word_of_nat (count_list xs (Some k))"
  by (induction xs arbitrary: st) (simp_all add: kind_count_count_status)

lemma kind_count_add_stats: "kind_count (add_stats a b) k = kind_count a k + kind_count b k"
  by (cases k) (simp_all add: add_stats_def)

lemma kind_count_zero: "kind_count zero_stats k = 0"
  by (cases k) (simp_all add: zero_stats_def)

lemma kind_count_stats_of: "kind_count (stats_of cs) k = word_of_nat (outcome_count k cs)"
  by (cases k) (simp_all add: stats_of_def)

lemma stats_eqI:
  fixes a b :: test_stats
  assumes "\<And>k. kind_count a k = kind_count b k"
  shows "a = b"
  using assms [of STATUS_SUCCESS] assms [of STATUS_UNEXPECTED_OUTPUT]
    assms [of STATUS_EXPECTED_BUILD_ERROR] assms [of STATUS_BUILD_ERROR]
    assms [of STATUS_EXPECTED_RUNTIME_ERROR] assms [of STATUS_RUNTIME_ERROR]
  by simp

lemma outcome_count_append:
  "outcome_count k (xs @ ys) = outcome_count k xs + outcome_count k ys"
  by (simp add: outcome_count_def)

lemma outcome_count_Nil: "outcome_count k [] = 0"
  by (simp add: outcome_count_def)

lemma kind_count_tally_cases:
  "kind_count (tally_cases st cs) k
     = kind_count st k + word_of_nat (outcome_count k (case_chain cs))"
  by (induction st cs rule: tally_cases.induct)
     (simp_all add: kind_count_foldl outcome_count_def recorded_def)

lemma subtree_cases_sel:
  "subtree_cases s = case_chain (test_cases s) @ forest_cases (child_suites s)"
  by (cases s) simp

lemma subtree_suites_sel: "subtree_suites s = s # forest_suites (child_suites s)"
  by (cases s) simp

lemma forest_cases_Some: "forest_cases (Some s) = subtree_cases s @ forest_cases (suite_next s)"
  by (cases s) simp

lemma forest_suites_Some:
  "forest_suites (Some s) = subtree_suites s @ forest_suites (suite_next s)"
  by (cases s) simp

lemma set_suite_next_sel [simp]:
  "suite_name (set_suite_next s n) = suite_name s"
  "test_cases (set_suite_next s n) = test_cases s"
  "child_suites (set_suite_next s n) = child_suites s"
  "suite_next (set_suite_next s n) = n"
  "stats (set_suite_next s n) = stats s"
  by (simp_all add: set_suite_next_def)

lemma set_suite_next_same: "set_suite_next s (suite_next s) = s"
  by (cases s) (simp add: set_suite_next_def)

lemma fresh_set_suite_next: "fresh (set_suite_next s n) = fresh s"
  by (simp add: fresh_def subtree_cases_sel)

lemma tally_plus_children:
  "add_stats (tally_cases zero_stats cs) (stats_of fc) = stats_of (case_chain cs @ fc)"
  by (rule stats_eqI)
     (simp add: kind_count_add_stats kind_count_tally_cases kind_count_zero kind_count_stats_of
        outcome_count_append)

lemma suite_shape_set_suite_next: "suite_shape (set_suite_next s n) = suite_shape s"
  by (simp add: suite_shape_def subtree_cases_sel)

lemma add_stats_stats_of:
  "add_stats (add_stats st (stats_of xs)) (stats_of ys) = add_stats st (stats_of (xs @ ys))"
  by (rule stats_eqI)
     (simp add: kind_count_add_stats kind_count_stats_of outcome_count_append)

lemma add_stats_stats_of_Nil: "add_stats st (stats_of []) = st"
  by (rule stats_eqI) (simp add: kind_count_add_stats kind_count_stats_of outcome_count_Nil)

lemma calculate_suite_stats_char:
  fixes s :: "'w test_suite" and ch :: "'w test_suite option"
  shows "suite_name (calculate_suite_stats s) = suite_name s
     \<and> test_cases (calculate_suite_stats s) = test_cases s
     \<and> suite_next (calculate_suite_stats s) = suite_next s
     \<and> subtree_cases (calculate_suite_stats s) = subtree_cases s
     \<and> stats (calculate_suite_stats s) = stats_of (subtree_cases s)
     \<and> (\<forall>S \<in> set (subtree_suites (calculate_suite_stats s)). fresh S)
     \<and> map suite_shape (subtree_suites (calculate_suite_stats s))
         = map suite_shape (subtree_suites s)"
    and "forest_cases (snd (add_child_stats st ch)) = forest_cases ch
     \<and> fst (add_child_stats st ch) = add_stats st (stats_of (forest_cases ch))
     \<and> (\<forall>S \<in> set (forest_suites (snd (add_child_stats st ch))). fresh S)
     \<and> map suite_shape (forest_suites (snd (add_child_stats st ch)))
         = map suite_shape (forest_suites ch)"
proof (induction s and st ch rule: calculate_suite_stats_add_child_stats.induct)
  case (1 nm cs ch nxt st)
  then show ?case
    by (simp add: case_prod_unfold fresh_def tally_plus_children suite_shape_def)
next
  case (2 st)
  then show ?case by (simp add: add_stats_stats_of_Nil)
next
  case (3 st nm cs ch nxt st0)
  define cur where "cur = calculate_suite_stats (Test_Suite nm cs ch nxt st0)"
  define rest where "rest = add_child_stats (add_stats st (stats cur)) nxt"
  have cur: "suite_name cur = nm \<and> test_cases cur = cs \<and> suite_next cur = nxt
     \<and> subtree_cases cur = subtree_cases (Test_Suite nm cs ch nxt st0)
     \<and> stats cur = stats_of (subtree_cases (Test_Suite nm cs ch nxt st0))
     \<and> (\<forall>S \<in> set (subtree_suites cur). fresh S)
     \<and> map suite_shape (subtree_suites cur)
         = map suite_shape (subtree_suites (Test_Suite nm cs ch nxt st0))"
    using "3.IH"(1) unfolding cur_def by simp
  have rest: "forest_cases (snd rest) = forest_cases nxt
     \<and> fst rest = add_stats (add_stats st (stats cur)) (stats_of (forest_cases nxt))
     \<and> (\<forall>S \<in> set (forest_suites (snd rest)). fresh S)
     \<and> map suite_shape (forest_suites (snd rest)) = map suite_shape (forest_suites nxt)"
    using "3.IH"(2) [OF cur_def] unfolding rest_def .
  have res: "add_child_stats st (Some (Test_Suite nm cs ch nxt st0))
      = (fst rest, Some (set_suite_next cur (snd rest)))"
    by (simp add: case_prod_unfold Let_def cur_def rest_def)
  have sc: "subtree_cases (set_suite_next cur (snd rest)) = subtree_cases cur"
    by (simp add: subtree_cases_sel [of "set_suite_next cur (snd rest)"] subtree_cases_sel [of cur])
  have ss: "subtree_suites (set_suite_next cur (snd rest))
      = set_suite_next cur (snd rest) # forest_suites (child_suites cur)"
    by (simp add: subtree_suites_sel [of "set_suite_next cur (snd rest)"])
  have fr: "\<forall>S \<in> set (subtree_suites (set_suite_next cur (snd rest))). fresh S"
    using cur unfolding ss
    by (simp add: fresh_set_suite_next subtree_suites_sel [of cur])
  have fc: "forest_cases (Some (set_suite_next cur (snd rest)))
      = subtree_cases (Test_Suite nm cs ch nxt st0) @ forest_cases nxt"
    using cur rest sc by (simp add: forest_cases_Some [of "set_suite_next cur (snd rest)"])
  have fs: "forest_suites (Some (set_suite_next cur (snd rest)))
      = subtree_suites (set_suite_next cur (snd rest)) @ forest_suites (snd rest)"
    by (simp add: forest_suites_Some [of "set_suite_next cur (snd rest)"])
  have st: "fst rest
      = add_stats st (stats_of (subtree_cases (Test_Suite nm cs ch nxt st0) @ forest_cases nxt))"
    using cur rest by (simp add: add_stats_stats_of)
  have sh: "map suite_shape (subtree_suites (set_suite_next cur (snd rest)))
      = map suite_shape (subtree_suites (Test_Suite nm cs ch nxt st0))"
    using cur sc unfolding ss
    by (simp add: subtree_suites_sel [of cur] suite_shape_def)
  show ?case
    unfolding res fst_conv snd_conv fc fs
    using st fr rest sh by auto
qed

lemma sint_kind_count_exact:
  assumes "kind_count st k = word_of_nat n" "n < 2147483648"
  shows "sint (kind_count st k) = int n"
  using assms sint_of_nat_small by simp

text \<open>
  C1. After \<open>calculate_suite_stats\<close> on the root of a tree, every suite \<open>S\<close> of the tree
  has, in each of its six counts, the number of recorded outcomes of that kind over the
  cases of its subtree (its own cases and those of every descendant suite), as an \<open>int\<close>:
  \<open>stats S = stats_of (subtree_cases S)\<close>, and the count read as an integer is that
  number whenever it is below \<open>2^31\<close>. The pass changes no name and no case.
\<close>

theorem stats_after_recompute:
  "(\<forall>S \<in> set (subtree_suites (calculate_suite_stats root)).
      stats S = stats_of (subtree_cases S)
      \<and> (\<forall>k. outcome_count k (subtree_cases S) < 2147483648 \<longrightarrow>
             sint (kind_count (stats S) k) = int (outcome_count k (subtree_cases S))))
   \<and> map suite_shape (subtree_suites (calculate_suite_stats root))
       = map suite_shape (subtree_suites root)"
proof -
  note c = calculate_suite_stats_char(1) [of root]
  have "\<forall>S \<in> set (subtree_suites (calculate_suite_stats root)).
      stats S = stats_of (subtree_cases S)"
    using c by (simp add: fresh_def)
  moreover have "sint (kind_count (stats S) k) = int (outcome_count k (subtree_cases S))"
    if "stats S = stats_of (subtree_cases S)" "outcome_count k (subtree_cases S) < 2147483648"
    for S :: "'a test_suite" and k
    using that by (intro sint_kind_count_exact) (simp_all add: kind_count_stats_of)
  ultimately show ?thesis
    using c by blast
qed

lemma read_results_one: "read_results (x # xs) 1 = [x]"
  by (simp add: read_results_def array_read_def)

lemma read_results_zero: "read_results xs 0 = []"
  by (simp add: read_results_def)

theorem stats_after_recompute_witness:
  "stats (calculate_suite_stats
      (Test_Suite ''Math''
         (Some (Test_Case ''Add'' None
            [Some STATUS_SUCCESS, None, None, None, None, None, None, None] 1 8 None))
         (Some (Test_Suite ''Edge''
            (Some (Test_Case ''Overflow'' None
               [Some STATUS_BUILD_ERROR, None, None, None, None, None, None, None]
               1 8 None))
            None None zero_stats))
         None zero_stats :: unit test_suite))
   = zero_stats\<lparr>success_count := 1, build_error_count := 1\<rparr>"
proof -
  let ?m = "Test_Suite ''Math''
         (Some (Test_Case ''Add'' None
            [Some STATUS_SUCCESS, None, None, None, None, None, None, None] 1 8 None))
         (Some (Test_Suite ''Edge''
            (Some (Test_Case ''Overflow'' None
               [Some STATUS_BUILD_ERROR, None, None, None, None, None, None, None]
               1 8 None))
            None None zero_stats))
         None zero_stats :: unit test_suite"
  define c where "c = calculate_suite_stats ?m"
  from stats_after_recompute [of ?m]
  have a: "\<forall>S \<in> set (subtree_suites c). stats S = stats_of (subtree_cases S)"
    and b: "map suite_shape (subtree_suites c) = map suite_shape (subtree_suites ?m)"
    unfolding c_def by blast+
  have "c \<in> set (subtree_suites c)"
    by (simp add: subtree_suites_sel [of c])
  with a have "stats c = stats_of (subtree_cases c)" by blast
  moreover from b have "subtree_cases c = subtree_cases ?m"
    by (simp add: subtree_suites_sel [of c] suite_shape_def)
  moreover have "stats_of (subtree_cases ?m)
      = zero_stats\<lparr>success_count := 1, build_error_count := 1\<rparr>"
    by (simp add: stats_of_def outcome_count_def recorded_def read_results_one zero_stats_def)
  ultimately have "stats c = zero_stats\<lparr>success_count := 1, build_error_count := 1\<rparr>"
    by simp
  then show ?thesis
    unfolding c_def .
qed


lemma fresh_fixpoint:
  fixes s :: "'w test_suite" and ch :: "'w test_suite option"
  shows "(\<forall>S \<in> set (subtree_suites s). fresh S) \<longrightarrow> calculate_suite_stats s = s"
    and "(\<forall>S \<in> set (forest_suites ch). fresh S) \<longrightarrow>
      add_child_stats st ch = (add_stats st (stats_of (forest_cases ch)), ch)"
proof (induction s and st ch rule: calculate_suite_stats_add_child_stats.induct)
  case (1 nm cs ch nxt st)
  then show ?case
    by (simp add: fresh_def tally_plus_children)
next
  case (2 st)
  then show ?case by (simp add: add_stats_stats_of_Nil)
next
  case (3 st nm cs ch nxt st0)
  show ?case
  proof
    assume a: "\<forall>S \<in> set (forest_suites (Some (Test_Suite nm cs ch nxt st0))). fresh S"
    then have a1: "\<forall>S \<in> set (subtree_suites (Test_Suite nm cs ch nxt st0)). fresh S"
      and a2: "\<forall>S \<in> set (forest_suites nxt). fresh S"
      by simp_all
    from a1 "3.IH"(1)
    have cur: "calculate_suite_stats (Test_Suite nm cs ch nxt st0) = Test_Suite nm cs ch nxt st0"
      by blast
    from a1 have st0: "st0 = stats_of (subtree_cases (Test_Suite nm cs ch nxt st0))"
      by (simp add: fresh_def)
    from "3.IH"(2) [OF cur [symmetric]] a2
    have rest: "add_child_stats (add_stats st st0) nxt
        = (add_stats (add_stats st st0) (stats_of (forest_cases nxt)), nxt)"
      by simp
    have "add_stats (add_stats st st0) (stats_of (forest_cases nxt))
        = add_stats st (stats_of (subtree_cases (Test_Suite nm cs ch nxt st0) @ forest_cases nxt))"
      by (subst st0) (rule add_stats_stats_of)
    then show "add_child_stats st (Some (Test_Suite nm cs ch nxt st0))
        = (add_stats st (stats_of (forest_cases (Some (Test_Suite nm cs ch nxt st0)))),
           Some (Test_Suite nm cs ch nxt st0))"
      using rest
      by (simp add: add_child_stats.simps(2) [of st nm cs ch nxt st0] cur Let_def
          set_suite_next_def del: calculate_suite_stats.simps add_child_stats.simps)
  qed
qed

section \<open>Rendering twice\<close>

lemma forest_suites_set_next:
  "forest_suites (Some (set_suite_next c n))
     = set_suite_next c n # forest_suites (child_suites c) @ forest_suites n"
  by (simp add: forest_suites_Some [of "set_suite_next c n"]
      subtree_suites_sel [of "set_suite_next c n"])

lemma recompute_roots_fresh:
  "(\<forall>S \<in> set (forest_suites (recompute_roots p)). fresh S)
   \<and> map suite_shape (forest_suites (recompute_roots p)) = map suite_shape (forest_suites p)"
proof (induction p rule: recompute_roots.induct)
  case 1
  then show ?case by simp
next
  case (2 nm cs ch nxt st)
  define c where "c = calculate_suite_stats (Test_Suite nm cs ch nxt st)"
  have cur: "(\<forall>S \<in> set (subtree_suites c). fresh S)
     \<and> map suite_shape (subtree_suites c)
         = map suite_shape (subtree_suites (Test_Suite nm cs ch nxt st))"
    using calculate_suite_stats_char(1) [of "Test_Suite nm cs ch nxt st"]
    unfolding c_def by blast
  have res: "recompute_roots (Some (Test_Suite nm cs ch nxt st))
      = Some (set_suite_next c (recompute_roots nxt))"
    by (simp add: c_def)
  have fs: "forest_suites (Some (Test_Suite nm cs ch nxt st))
      = subtree_suites (Test_Suite nm cs ch nxt st) @ forest_suites nxt"
    by simp
  show ?case
    unfolding res forest_suites_set_next fs
    using cur "2.IH"
    by (auto simp: subtree_suites_sel [of c] fresh_set_suite_next suite_shape_set_suite_next)
qed

lemma recompute_roots_fixpoint:
  "(\<forall>S \<in> set (forest_suites p). fresh S) \<Longrightarrow> recompute_roots p = p"
proof (induction p rule: recompute_roots.induct)
  case 1
  then show ?case by simp
next
  case (2 nm cs ch nxt st)
  from "2.prems" have a1: "\<forall>S \<in> set (subtree_suites (Test_Suite nm cs ch nxt st)). fresh S"
    and a2: "\<forall>S \<in> set (forest_suites nxt). fresh S"
    by simp_all
  from a1 fresh_fixpoint(1) [of "Test_Suite nm cs ch nxt st"]
  have "calculate_suite_stats (Test_Suite nm cs ch nxt st) = Test_Suite nm cs ch nxt st"
    by blast
  moreover from a2 "2.IH" have "recompute_roots nxt = nxt" by blast
  ultimately show ?case
    by (simp add: set_suite_next_def del: calculate_suite_stats.simps)
qed

lemma print_test_results_Some:
  "print_test_results (Some r)
     = (Some (r\<lparr>root_suite := recompute_roots (root_suite r)\<rparr>),
        if root_suite r = None then []
        else print_legend @ print_roots (recompute_roots (root_suite r)))"
  by (cases "root_suite r") (simp_all add: print_test_results_def Let_def del: recompute_roots.simps(2))

lemma replicate_8: "replicate 8 x = [x, x, x, x, x, x, x, x]"
  by (simp add: numeral_eq_Suc)

lemma stale_runner_built:
  "test_runner_add_suite (fst (test_runner_create []))
     (test_suite_add_test_case (fst (test_suite_create [] ''S''))
        (fst (snd (test_case_add_result [] (fst (test_case_create [] ''c'' None))
           STATUS_SUCCESS))))
   = Some stale_runner"
  by (simp add: test_runner_create_def test_suite_create_def test_case_create_def
      test_case_add_result_Some add_result_fresh stale_runner_def replicate_8)

lemma stale_runner_recomputed:
  "recompute_roots (root_suite stale_runner)
     = Some (Test_Suite ''S''
         (Some (Test_Case ''c'' None
            [Some STATUS_SUCCESS, None, None, None, None, None, None, None] 1 8 None))
         None None (zero_stats\<lparr>success_count := 1\<rparr>))"
  by (simp add: stale_runner_def read_results_one set_suite_next_def zero_stats_def)

text \<open>
  C4, as stated, fails: \<open>print_test_results\<close> first recomputes the statistics, so it
  writes the \<open>stats\<close> of every suite. On \<open>stale_runner\<close> the suite's \<open>stats\<close> are all zero
  before the call and count one success after it.
\<close>

theorem render_rewrites_stats:
  "\<exists>r'. fst (print_test_results (Some stale_runner)) = Some r'
     \<and> map stats (forest_suites (root_suite stale_runner)) = [zero_stats]
     \<and> map stats (forest_suites (root_suite r')) = [zero_stats\<lparr>success_count := 1\<rparr>]
     \<and> zero_stats\<lparr>success_count := 1\<rparr> \<noteq> zero_stats"
proof -
  have "fst (print_test_results (Some stale_runner))
      = Some (stale_runner\<lparr>root_suite := recompute_roots (root_suite stale_runner)\<rparr>)"
    by (simp add: print_test_results_Some)
  moreover have "map stats (forest_suites (root_suite stale_runner)) = [zero_stats]"
    by (simp add: stale_runner_def)
  moreover have "zero_stats\<lparr>success_count := 1\<rparr> \<noteq> zero_stats"
    by (simp add: zero_stats_def)
  ultimately show ?thesis
    by (simp add: stale_runner_recomputed)
qed

text \<open>
  C4, amended. A second \<open>print_test_results\<close> on the tree the first one left writes the
  same text and leaves that tree as it is, \<open>stats\<close> included. The first call leaves every
  suite with fresh \<open>stats\<close> and changes no name and no case; it leaves the whole tree
  unchanged when the \<open>stats\<close> were already fresh. With a \<open>NULL\<close> runner nothing is written.
\<close>

theorem render_twice:
  "print_test_results None = (None, [])
   \<and> (print_test_results (Some r) = (runner', out) \<longrightarrow>
        (\<exists>r'. runner' = Some r'
           \<and> print_test_results (Some r') = (Some r', out)
           \<and> global_stats r' = global_stats r
           \<and> (\<forall>S \<in> set (forest_suites (root_suite r')). fresh S)
           \<and> map suite_shape (forest_suites (root_suite r'))
               = map suite_shape (forest_suites (root_suite r))
           \<and> ((\<forall>S \<in> set (forest_suites (root_suite r)). fresh S) \<longrightarrow> r' = r)))"
proof (intro conjI impI)
  show "print_test_results None = (None, [])"
    by (simp add: print_test_results_def)
next
  assume a: "print_test_results (Some r) = (runner', out)"
  define roots where "roots = recompute_roots (root_suite r)"
  define r' where "r' = r\<lparr>root_suite := roots\<rparr>"
  from a have rn: "runner' = Some r'"
    and out: "out = (if root_suite r = None then [] else print_legend @ print_roots roots)"
    by (auto simp: print_test_results_Some r'_def roots_def)
  note f = recompute_roots_fresh [of "root_suite r", folded roots_def]
  from f have stable: "recompute_roots roots = roots"
    by (intro recompute_roots_fixpoint) blast
  have none: "roots = None \<longleftrightarrow> root_suite r = None"
    unfolding roots_def by (cases "root_suite r" rule: recompute_roots.cases) simp_all
  have again: "print_test_results (Some r') = (Some r', out)"
    by (simp add: print_test_results_Some r'_def stable out none)
  have same: "r' = r" if "\<forall>S \<in> set (forest_suites (root_suite r)). fresh S"
    using recompute_roots_fixpoint [OF that] by (simp add: r'_def roots_def)
  show "\<exists>r'. runner' = Some r'
           \<and> print_test_results (Some r') = (Some r', out)
           \<and> global_stats r' = global_stats r
           \<and> (\<forall>S \<in> set (forest_suites (root_suite r')). fresh S)
           \<and> map suite_shape (forest_suites (root_suite r'))
               = map suite_shape (forest_suites (root_suite r))
           \<and> ((\<forall>S \<in> set (forest_suites (root_suite r)). fresh S) \<longrightarrow> r' = r)"
    using rn again f same by (intro exI [of _ r']) (simp add: r'_def)
qed

theorem render_twice_witness:
  "\<exists>r'. fst (print_test_results (Some stale_runner)) = Some r'
     \<and> print_test_results (Some r') = (Some r', snd (print_test_results (Some stale_runner)))
     \<and> map stats (forest_suites (root_suite r')) = [zero_stats\<lparr>success_count := 1\<rparr>]"
proof -
  have e: "print_test_results (Some stale_runner)
      = (fst (print_test_results (Some stale_runner)),
         snd (print_test_results (Some stale_runner)))"
    by simp
  have "fst (print_test_results (Some stale_runner))
      = Some (stale_runner\<lparr>root_suite := recompute_roots (root_suite stale_runner)\<rparr>)"
    by (simp add: print_test_results_Some)
  then have s: "\<And>r'. fst (print_test_results (Some stale_runner)) = Some r' \<Longrightarrow>
      map stats (forest_suites (root_suite r')) = [zero_stats\<lparr>success_count := 1\<rparr>]"
    by (auto simp: stale_runner_recomputed)
  from render_twice [of stale_runner "fst (print_test_results (Some stale_runner))"
      "snd (print_test_results (Some stale_runner))"] e
  obtain r' where "fst (print_test_results (Some stale_runner)) = Some r'"
    and "print_test_results (Some r') = (Some r', snd (print_test_results (Some stale_runner)))"
    by blast
  with s show ?thesis by blast
qed

section \<open>What a run invokes\<close>

lemma set_case_next_sel [simp]:
  "case_name (set_case_next tc n) = case_name tc"
  "test_func (set_case_next tc n) = test_func tc"
  "results (set_case_next tc n) = results tc"
  "result_count (set_case_next tc n) = result_count tc"
  "result_capacity (set_case_next tc n) = result_capacity tc"
  "case_next (set_case_next tc n) = n"
  by (simp_all add: set_case_next_def)

lemma set_case_next_twice [simp]: "set_case_next (set_case_next tc a) b = set_case_next tc b"
  by (simp add: set_case_next_def)

lemma set_case_next_same: "set_case_next tc (case_next tc) = tc"
  by (cases tc) (simp add: set_case_next_def)

lemma store_result_next: "store_result (set_case_next tc n) s = set_case_next (store_result tc s) n"
  by (simp add: store_result_def set_case_next_def)

lemma add_result_next:
  "add_result h (set_case_next tc n) s
     = (fst (add_result h tc s), set_case_next (fst (snd (add_result h tc s))) n,
        snd (snd (add_result h tc s)))"
  by (auto simp: add_result_def Let_def store_result_def set_case_next_def
      split: prod.splits option.splits)

lemma run_case_next:
  "run_case e (set_case_next tc n)
     = (set_case_next (fst (run_case e tc)) n, snd (run_case e tc))"
  by (simp add: run_case_def add_result_next Let_def split: option.splits prod.splits)

lemma case_chain_Some:
  "case_chain (Some c) = set_case_next c None # case_chain (case_next c)"
  by (cases c) (simp add: set_case_next_def)

lemma run_cases_list:
  "case_chain (fst (run_cases e p)) = fst (run_list e (case_chain p))
   \<and> snd (run_cases e p) = snd (run_list e (case_chain p))"
proof (induction e p rule: run_cases.induct)
  case (1 e)
  then show ?case by simp
next
  case (2 e nm f rs cnt cap nxt)
  define T where "T = Test_Case nm f rs cnt cap nxt"
  define cur where "cur = fst (run_case e T)"
  define e1 where "e1 = snd (run_case e T)"
  have rc: "run_case e T = (cur, e1)" by (simp add: cur_def e1_def)
  have ih: "case_chain (fst (run_cases e1 nxt)) = fst (run_list e1 (case_chain nxt))
     \<and> snd (run_cases e1 nxt) = snd (run_list e1 (case_chain nxt))"
    using "2.IH" [OF rc [symmetric, unfolded T_def] refl] .
  have res: "run_cases e (Some T)
      = (Some (set_case_next cur (fst (run_cases e1 nxt))), snd (run_cases e1 nxt))"
    using rc by (simp add: T_def case_prod_unfold Let_def)
  have ch: "case_chain (Some T) = set_case_next T None # case_chain nxt"
    by (simp add: case_chain_Some T_def)
  have "run_case e (set_case_next T None) = (set_case_next cur None, e1)"
    by (simp add: run_case_next rc)
  then have "run_list e (case_chain (Some T))
      = (set_case_next cur None # fst (run_list e1 (case_chain nxt)),
         snd (run_list e1 (case_chain nxt)))"
    unfolding ch by (simp add: case_prod_unfold Let_def)
  then show ?case
    unfolding T_def [symmetric] res
    using ih by (simp add: case_chain_Some [of "set_case_next cur _"])
qed

lemma run_list_append:
  "run_list e (xs @ ys)
     = (fst (run_list e xs) @ fst (run_list (snd (run_list e xs)) ys),
        snd (run_list (snd (run_list e xs)) ys))"
  by (induction xs arbitrary: e) (simp_all add: case_prod_unfold Let_def)

lemma run_list_length: "length (fst (run_list e xs)) = length xs"
  by (induction xs arbitrary: e) (simp_all add: case_prod_unfold Let_def)

lemma run_list_nth:
  "i < length xs \<Longrightarrow>
     fst (run_list e xs) ! i = fst (run_case (env_before e xs i) (xs ! i))
     \<and> env_before e xs (Suc i) = snd (run_case (env_before e xs i) (xs ! i))"
proof (induction xs arbitrary: e i)
  case Nil
  then show ?case by simp
next
  case (Cons x xs)
  show ?case
  proof (cases i)
    case 0
    then show ?thesis by (simp add: env_before_def case_prod_unfold Let_def)
  next
    case (Suc j)
    with Cons.prems have "j < length xs" by simp
    from Cons.IH [OF this, of "snd (run_case e x)"] Suc show ?thesis
      by (simp add: env_before_def case_prod_unfold Let_def)
  qed
qed

lemma top_cases_None: "top_cases None = []"
  by (simp add: top_cases_def)

lemma top_cases_Some:
  "top_cases (Some s) = case_chain (test_cases s) @ top_cases (suite_next s)"
  by (cases s) (simp add: top_cases_def)

lemma suite_chain_Some:
  "suite_chain (Some s) = set_suite_next s None # suite_chain (suite_next s)"
  by (cases s) (simp add: set_suite_next_def)

lemma run_suites_list:
  "top_cases (fst (run_suites e p)) = fst (run_list e (top_cases p))
   \<and> snd (run_suites e p) = snd (run_list e (top_cases p))
   \<and> map child_suites (suite_chain (fst (run_suites e p))) = map child_suites (suite_chain p)"
proof (induction e p rule: run_suites.induct)
  case (1 e)
  then show ?case by (simp add: top_cases_None)
next
  case (2 e nm cs ch nxt st)
  define cs' where "cs' = fst (run_cases e cs)"
  define e1 where "e1 = snd (run_cases e cs)"
  have rc: "run_cases e cs = (cs', e1)" by (simp add: cs'_def e1_def)
  note ih = "2.IH" [OF rc [symmetric] refl]
  have res: "run_suites e (Some (Test_Suite nm cs ch nxt st))
      = (Some (Test_Suite nm cs' ch (fst (run_suites e1 nxt)) st), snd (run_suites e1 nxt))"
    using rc by (simp add: case_prod_unfold Let_def)
  have l: "case_chain cs' = fst (run_list e (case_chain cs))"
    "e1 = snd (run_list e (case_chain cs))"
    using run_cases_list [of e cs] by (simp_all add: cs'_def e1_def)
  show ?case
    unfolding res
    using ih l by (simp add: top_cases_Some run_list_append)
qed

lemma calculate_child_cases:
  "forest_cases (child_suites (calculate_suite_stats s)) = forest_cases (child_suites s)"
proof -
  define c where "c = calculate_suite_stats s"
  have "test_cases c = test_cases s" "subtree_cases c = subtree_cases s"
    using calculate_suite_stats_char(1) [of s] unfolding c_def by blast+
  then show ?thesis
    unfolding c_def [symmetric]
    by (simp add: subtree_cases_sel [of c] subtree_cases_sel [of s])
qed

lemma recompute_roots_cases:
  "top_cases (recompute_roots p) = top_cases p
   \<and> map (\<lambda>s. forest_cases (child_suites s)) (suite_chain (recompute_roots p))
       = map (\<lambda>s. forest_cases (child_suites s)) (suite_chain p)"
proof (induction p rule: recompute_roots.induct)
  case 1
  then show ?case by simp
next
  case (2 nm cs ch nxt st)
  define c where "c = calculate_suite_stats (Test_Suite nm cs ch nxt st)"
  have res: "recompute_roots (Some (Test_Suite nm cs ch nxt st))
      = Some (set_suite_next c (recompute_roots nxt))"
    by (simp add: c_def)
  have "test_cases c = cs"
    using calculate_suite_stats_char(1) [of "Test_Suite nm cs ch nxt st"]
    unfolding c_def by simp
  moreover have "forest_cases (child_suites c) = forest_cases ch"
    using calculate_child_cases [of "Test_Suite nm cs ch nxt st"] unfolding c_def by simp
  ultimately show ?case
    unfolding res
    using "2.IH"
    by (simp add: top_cases_Some [of "set_suite_next c _"] top_cases_Some [of "Test_Suite nm cs ch nxt st"]
        suite_chain_Some [of "set_suite_next c _"])
qed

lemma test_runner_run_Some:
  "test_runner_run e (Some r)
     = (Some (r\<lparr>root_suite := recompute_roots (fst (run_suites e (root_suite r)))\<rparr>),
        snd (run_suites e (root_suite r)),
        snd (print_test_results (Some (r\<lparr>root_suite := fst (run_suites e (root_suite r))\<rparr>))))"
  by (simp add: test_runner_run_def case_prod_unfold Let_def print_test_results_Some)

lemma run_case_skip:
  "test_func tc = None \<or> result_count tc \<noteq> 0 \<Longrightarrow> run_case e tc = (tc, e)"
  by (auto simp: run_case_def split: option.splits)

lemma run_case_invoke:
  assumes f: "test_func tc = Some f" and z: "result_count tc = 0" and inv: "case_inv tc"
  shows "env_world (snd (run_case e tc)) = snd (f (env_world e))"
    and "growth_refused (env_heap e) (Some tc) \<Longrightarrow>
      fst (run_case e tc) = tc
      \<and> env_stderr (snd (run_case e tc))
          = env_stderr e @ ''Warning: Failed to add test result for '' @ case_name tc @ [newline]"
    and "\<not> growth_refused (env_heap e) (Some tc) \<Longrightarrow>
      recorded (fst (run_case e tc)) = [Some (fst (f (env_world e)))]
      \<and> case_name (fst (run_case e tc)) = case_name tc
      \<and> test_func (fst (run_case e tc)) = test_func tc
      \<and> env_stderr (snd (run_case e tc)) = env_stderr e"
proof -
  define s where "s = fst (f (env_world e))"
  obtain r tc' h' where a: "add_result (env_heap e) tc s = (r, tc', h')"
    by (cases "add_result (env_heap e) tc s") auto
  have rc: "run_case e tc
      = (tc', \<lparr>env_heap = h', env_world = snd (f (env_world e)),
               env_stderr = (if r \<noteq> 0
                  then env_stderr e @ ''Warning: Failed to add test result for ''
                    @ case_name tc @ [newline]
                  else env_stderr e)\<rparr>)"
    using f z a by (simp add: run_case_def case_prod_unfold s_def)
  show "env_world (snd (run_case e tc)) = snd (f (env_world e))"
    by (simp add: rc)
  {
    assume g: "growth_refused (env_heap e) (Some tc)"
    from add_result_refused [OF g, of s] a have "r \<noteq> 0" by simp
    with add_result_failed(2) [OF a] rc
    show "fst (run_case e tc) = tc
      \<and> env_stderr (snd (run_case e tc))
          = env_stderr e @ ''Warning: Failed to add test result for '' @ case_name tc @ [newline]"
      by simp
  }
  {
    assume g: "\<not> growth_refused (env_heap e) (Some tc)"
    with add_result_failed(3) [OF a] have r0: "r = 0" by blast
    with a have a0: "add_result (env_heap e) tc s = (0, tc', h')" by simp
    from add_result_ok(2,4) [OF inv a0] recorded_empty [OF z] rc r0
    show "recorded (fst (run_case e tc)) = [Some (fst (f (env_world e)))]
      \<and> case_name (fst (run_case e tc)) = case_name tc
      \<and> test_func (fst (run_case e tc)) = test_func tc
      \<and> env_stderr (snd (run_case e tc)) = env_stderr e"
      by (simp add: s_def)
  }
qed

lemma add_result_first:
  "add_result [] (Test_Case nm f [] 0 0 nxt) s
     = (0, Test_Case nm f [Some s, None, None, None, None, None, None, None] 1 8 nxt, [])"
  using realloc_first_granted
  by (simp add: add_result_def store_result_def array_write_def grown_capacity_def
      INITIAL_RESULT_CAPACITY_def replicate_8)

lemma read_results_three: "read_results (x # y # z # xs) 3 = [x, y, z]"
  by (simp add: read_results_def array_read_def upt_rec numeral_3_eq_3)

lemma math_runner_ran:
  "run_suites start_env (root_suite math_runner)
     = (Some (Test_Suite ''Math''
         (Some (Test_Case ''Add'' (Some (\<lambda>calls. (STATUS_SUCCESS, calls + 1)))
            [Some STATUS_SUCCESS, None, None, None, None, None, None, None] 1 8
            (Some (Test_Case ''Flaky'' (Some (\<lambda>calls. (STATUS_RUNTIME_ERROR, calls + 1)))
               [Some STATUS_SUCCESS, Some STATUS_UNEXPECTED_OUTPUT, Some STATUS_SUCCESS,
                None, None, None, None, None] 3 8 None))))
         (Some (Test_Suite ''Edge''
            (Some (Test_Case ''Overflow'' (Some (\<lambda>calls. (STATUS_BUILD_ERROR, calls + 1)))
               [] 0 0 None))
            None None zero_stats))
         None zero_stats),
        \<lparr>env_heap = [], env_world = 1, env_stderr = []\<rparr>)"
  by (simp add: math_runner_def start_env_def run_case_def add_result_first set_case_next_def)

lemma recompute_roots_forest_cases: "forest_cases (recompute_roots p) = forest_cases p"
proof (induction p rule: recompute_roots.induct)
  case 1
  then show ?case by simp
next
  case (2 nm cs ch nxt st)
  define c where "c = calculate_suite_stats (Test_Suite nm cs ch nxt st)"
  have res: "recompute_roots (Some (Test_Suite nm cs ch nxt st))
      = Some (set_suite_next c (recompute_roots nxt))"
    by (simp add: c_def)
  have "subtree_cases c = subtree_cases (Test_Suite nm cs ch nxt st)"
    using calculate_suite_stats_char(1) [of "Test_Suite nm cs ch nxt st"]
    unfolding c_def by blast
  then show ?case
    unfolding res using "2.IH"
    by (simp add: forest_cases_Some [of "set_suite_next c _"]
        subtree_cases_sel [of "set_suite_next c _"] subtree_cases_sel [of c])
qed

lemma add_result_first_refused:
  "add_result [False] (Test_Case nm f [] 0 0 nxt) s = (- 1, Test_Case nm f [] 0 0 nxt, [])"
  using realloc_first_refused by (simp add: add_result_def)

lemma math_runner_ran_refused:
  "run_suites refusing_env (root_suite math_runner)
     = (root_suite math_runner,
        \<lparr>env_heap = [], env_world = 1,
         env_stderr = ''Warning: Failed to add test result for Add'' @ [newline]\<rparr>)"
  by (simp add: math_runner_def refusing_env_def run_case_def add_result_first_refused
      set_case_next_def)

lemma not_refused_first: "\<not> growth_refused [] (Some (Test_Case nm f [] 0 0 nxt))"
  using realloc_first_granted by (simp add: growth_refused_def)

lemma math_runner_top_cases:
  "top_cases (root_suite math_runner)
     = [Test_Case ''Add'' (Some (\<lambda>calls. (STATUS_SUCCESS, calls + 1))) [] 0 0 None,
        Test_Case ''Flaky'' (Some (\<lambda>calls. (STATUS_RUNTIME_ERROR, calls + 1)))
          [Some STATUS_SUCCESS, Some STATUS_UNEXPECTED_OUTPUT, Some STATUS_SUCCESS,
           None, None, None, None, None] 3 8 None]"
  by (simp add: math_runner_def top_cases_def)

text \<open>
  C2, as stated for every test case, fails in two ways. In \<open>math_runner\<close> the case
  \<open>Overflow\<close> of the child suite has a test function and no outcome, and after
  \<open>test_runner_run\<close> it still has none; the call counter shows one invocation, that of
  \<open>Add\<close>. And when the allocator refuses the growth of the array, \<open>Add\<close> itself is
  invoked and ends without outcome; the run writes its warning and goes on.
\<close>

theorem run_leaves_case_without_outcome:
  "(\<exists>r' e' out.
     test_runner_run start_env (Some math_runner) = (Some r', e', out)
     \<and> map (\<lambda>c. (case_name c, test_func c \<noteq> None, recorded c))
         (forest_cases (root_suite math_runner))
       = [(''Add'', True, []),
          (''Flaky'', True,
           [Some STATUS_SUCCESS, Some STATUS_UNEXPECTED_OUTPUT, Some STATUS_SUCCESS]),
          (''Overflow'', True, [])]
     \<and> map (\<lambda>c. (case_name c, test_func c \<noteq> None, recorded c))
         (forest_cases (root_suite r'))
       = [(''Add'', True, [Some STATUS_SUCCESS]),
          (''Flaky'', True,
           [Some STATUS_SUCCESS, Some STATUS_UNEXPECTED_OUTPUT, Some STATUS_SUCCESS]),
          (''Overflow'', True, [])]
     \<and> env_world e' = 1)
   \<and> (\<exists>r' e' out.
     test_runner_run refusing_env (Some math_runner) = (Some r', e', out)
     \<and> map (\<lambda>c. (case_name c, test_func c \<noteq> None, recorded c))
         (forest_cases (root_suite r'))
       = [(''Add'', True, []),
          (''Flaky'', True,
           [Some STATUS_SUCCESS, Some STATUS_UNEXPECTED_OUTPUT, Some STATUS_SUCCESS]),
          (''Overflow'', True, [])]
     \<and> env_world e' = 1
     \<and> env_stderr e' = ''Warning: Failed to add test result for Add'' @ [newline])"
proof -
  have a: "map (\<lambda>c. (case_name c, test_func c \<noteq> None, recorded c))
         (forest_cases (root_suite math_runner))
       = [(''Add'', True, []),
          (''Flaky'', True,
           [Some STATUS_SUCCESS, Some STATUS_UNEXPECTED_OUTPUT, Some STATUS_SUCCESS]),
          (''Overflow'', True, [])]"
    by (simp add: math_runner_def recorded_def read_results_three read_results_zero)
  have b: "map (\<lambda>c. (case_name c, test_func c \<noteq> None, recorded c))
         (forest_cases (fst (run_suites start_env (root_suite math_runner))))
       = [(''Add'', True, [Some STATUS_SUCCESS]),
          (''Flaky'', True,
           [Some STATUS_SUCCESS, Some STATUS_UNEXPECTED_OUTPUT, Some STATUS_SUCCESS]),
          (''Overflow'', True, [])]"
    unfolding math_runner_ran
    by (simp add: recorded_def read_results_one read_results_three read_results_zero)
  have c: "env_world (snd (run_suites start_env (root_suite math_runner))) = 1"
    unfolding math_runner_ran by simp
  have d: "fst (run_suites refusing_env (root_suite math_runner)) = root_suite math_runner"
    "env_world (snd (run_suites refusing_env (root_suite math_runner))) = 1"
    "env_stderr (snd (run_suites refusing_env (root_suite math_runner)))
       = ''Warning: Failed to add test result for Add'' @ [newline]"
    unfolding math_runner_ran_refused by simp_all
  show ?thesis
    unfolding test_runner_run_Some
    using a b c d by (simp add: recompute_roots_forest_cases)
qed

lemma run_case_world:
  "env_world (snd (run_case e tc))
     = (case test_func tc of
          None \<Rightarrow> env_world e
        | Some f \<Rightarrow> if result_count tc = 0 then snd (f (env_world e)) else env_world e)"
  by (simp add: run_case_def case_prod_unfold Let_def split: option.splits)

lemma run_list_world: "env_world (snd (run_list e cs)) = invocations (env_world e) cs"
  by (induction cs arbitrary: e) (simp_all add: case_prod_unfold Let_def run_case_world)

lemma run_list_kept:
  "list_all2 (\<lambda>c c'. result_count c \<noteq> 0 \<or> test_func c = None \<longrightarrow> c' = c)
     cs (fst (run_list e cs))"
  by (induction cs arbitrary: e) (auto simp: case_prod_unfold Let_def run_case_skip)

lemma run_suites_kept:
  "list_all2 (\<lambda>c c'. result_count c \<noteq> 0 \<or> test_func c = None \<longrightarrow> c' = c)
     (forest_cases p) (forest_cases (fst (run_suites e p)))"
proof (induction e p rule: run_suites.induct)
  case (1 e)
  then show ?case by simp
next
  case (2 e nm cs ch nxt st)
  define cs' where "cs' = fst (run_cases e cs)"
  define e1 where "e1 = snd (run_cases e cs)"
  have rc: "run_cases e cs = (cs', e1)" by (simp add: cs'_def e1_def)
  note ih = "2.IH" [OF rc [symmetric] refl]
  have res: "fst (run_suites e (Some (Test_Suite nm cs ch nxt st)))
      = Some (Test_Suite nm cs' ch (fst (run_suites e1 nxt)) st)"
    using rc by (simp add: case_prod_unfold Let_def)
  have l: "case_chain cs' = fst (run_list e (case_chain cs))"
    using run_cases_list [of e cs] by (simp add: cs'_def)
  have own: "list_all2 (\<lambda>c c'. result_count c \<noteq> 0 \<or> test_func c = None \<longrightarrow> c' = c)
      (case_chain cs) (case_chain cs')"
    unfolding l by (rule run_list_kept)
  have below: "list_all2 (\<lambda>c c'. result_count c \<noteq> 0 \<or> test_func c = None \<longrightarrow> c' = c)
      (forest_cases ch) (forest_cases ch)"
    by (rule list_all2_refl) simp
  show ?case
    unfolding res
    using own below ih by (simp add: list_all2_appendI)
qed

lemma run_top_level_step:
  assumes run: "test_runner_run e (Some r) = (runner', e', out)"
    and i: "i < length (top_cases (root_suite r))"
    and inv: "case_inv (top_cases (root_suite r) ! i)"
  shows "\<exists>r'. runner' = Some r'
     \<and> length (top_cases (root_suite r')) = length (top_cases (root_suite r))
     \<and> (let c = top_cases (root_suite r) ! i;
             c' = top_cases (root_suite r') ! i;
             before = env_before e (top_cases (root_suite r)) i;
             after = env_before e (top_cases (root_suite r)) (Suc i)
         in case test_func c of
              None \<Rightarrow> c' = c \<and> after = before
            | Some f \<Rightarrow>
                if result_count c \<noteq> 0 then c' = c \<and> after = before
                else env_world after = snd (f (env_world before))
                   \<and> (if growth_refused (env_heap before) (Some c)
                      then c' = c
                         \<and> env_stderr after
                             = env_stderr before @ ''Warning: Failed to add test result for ''
                                 @ case_name c @ [newline]
                      else recorded c' = [Some (fst (f (env_world before)))]
                         \<and> case_name c' = case_name c \<and> test_func c' = test_func c
                         \<and> env_stderr after = env_stderr before))
     \<and> e' = env_before e (top_cases (root_suite r)) (length (top_cases (root_suite r)))"
proof -
  define cs where "cs = top_cases (root_suite r)"
  define r' where "r' = r\<lparr>root_suite := recompute_roots (fst (run_suites e (root_suite r)))\<rparr>"
  define c where "c = cs ! i"
  define before where "before = env_before e cs i"
  from run have rn: "runner' = Some r'" and e': "e' = snd (run_suites e (root_suite r))"
    by (simp_all add: test_runner_run_Some r'_def)
  have tc: "top_cases (root_suite r') = fst (run_list e cs)"
    using recompute_roots_cases [of "fst (run_suites e (root_suite r))"]
      run_suites_list [of e "root_suite r"]
    by (simp add: r'_def cs_def)
  have e'': "e' = env_before e cs (length cs)"
    using run_suites_list [of e "root_suite r"] e' by (simp add: env_before_def cs_def)
  from i have i': "i < length cs" by (simp add: cs_def)
  note nth = run_list_nth [OF i', of e, folded c_def before_def]
  from inv have inv': "case_inv c" by (simp add: c_def cs_def)
  have step: "case test_func c of
      None \<Rightarrow> fst (run_case before c) = c \<and> snd (run_case before c) = before
    | Some f \<Rightarrow>
        if result_count c \<noteq> 0
        then fst (run_case before c) = c \<and> snd (run_case before c) = before
        else env_world (snd (run_case before c)) = snd (f (env_world before))
           \<and> (if growth_refused (env_heap before) (Some c)
              then fst (run_case before c) = c
                 \<and> env_stderr (snd (run_case before c))
                     = env_stderr before @ ''Warning: Failed to add test result for ''
                         @ case_name c @ [newline]
              else recorded (fst (run_case before c)) = [Some (fst (f (env_world before)))]
                 \<and> case_name (fst (run_case before c)) = case_name c
                 \<and> test_func (fst (run_case before c)) = test_func c
                 \<and> env_stderr (snd (run_case before c)) = env_stderr before)"
  proof (cases "test_func c")
    case None
    then show ?thesis by (simp add: run_case_skip)
  next
    case (Some f)
    show ?thesis
    proof (cases "result_count c = 0")
      case False
      with Some show ?thesis by (simp add: run_case_skip)
    next
      case True
      from run_case_invoke [OF Some True inv', of before] Some True
      show ?thesis by simp
    qed
  qed
  define c' where "c' = top_cases (root_suite r') ! i"
  define after where "after = env_before e cs (Suc i)"
  have c'_eq: "c' = fst (run_case before c)"
    using tc nth by (simp add: c'_def)
  have after_eq: "after = snd (run_case before c)"
    using nth by (simp add: after_def)
  note body = step [folded c'_eq after_eq]
  show ?thesis
  proof (intro exI [of _ r'] conjI)
    show "runner' = Some r'" by (rule rn)
    show "length (top_cases (root_suite r')) = length (top_cases (root_suite r))"
      using tc by (simp add: run_list_length cs_def)
    show "let c = top_cases (root_suite r) ! i;
             c' = top_cases (root_suite r') ! i;
             before = env_before e (top_cases (root_suite r)) i;
             after = env_before e (top_cases (root_suite r)) (Suc i)
         in case test_func c of
              None \<Rightarrow> c' = c \<and> after = before
            | Some f \<Rightarrow>
                if result_count c \<noteq> 0 then c' = c \<and> after = before
                else env_world after = snd (f (env_world before))
                   \<and> (if growth_refused (env_heap before) (Some c)
                      then c' = c
                         \<and> env_stderr after
                             = env_stderr before @ ''Warning: Failed to add test result for ''
                                 @ case_name c @ [newline]
                      else recorded c' = [Some (fst (f (env_world before)))]
                         \<and> case_name c' = case_name c \<and> test_func c' = test_func c
                         \<and> env_stderr after = env_stderr before)"
      unfolding Let_def
      using body unfolding c'_def after_def c_def before_def cs_def .
    show "e' = env_before e (top_cases (root_suite r)) (length (top_cases (root_suite r)))"
      using e'' unfolding cs_def .
  qed
qed

lemma math_runner_forest_cases:
  "forest_cases (root_suite math_runner)
     = [Test_Case ''Add'' (Some (\<lambda>calls. (STATUS_SUCCESS, calls + 1))) [] 0 0 None,
        Test_Case ''Flaky'' (Some (\<lambda>calls. (STATUS_RUNTIME_ERROR, calls + 1)))
          [Some STATUS_SUCCESS, Some STATUS_UNEXPECTED_OUTPUT, Some STATUS_SUCCESS,
           None, None, None, None, None] 3 8 None,
        Test_Case ''Overflow'' (Some (\<lambda>calls. (STATUS_BUILD_ERROR, calls + 1))) [] 0 0 None]"
  by (simp add: math_runner_def)

text \<open>
  C2, amended. The test functions act on a state that does not contain the tree: they
  do not themselves record results. Let \<open>c\<close> be a case directly owned by a top-level
  suite (the \<open>i\<close>-th in traversal order) that satisfies the case invariant, \<open>before\<close> the
  environment in which the run reaches it and \<open>after\<close> the one in which it leaves it. If
  \<open>c\<close> has a test function and \<open>result_count = 0\<close>, the function is invoked once (the state
  after is the function's effect on the state before); when the growth of the array is
  granted the case then holds exactly one outcome, the value returned, and when it is
  refused the case is unchanged and a warning is written to standard error. And every
  case of the tree, at any depth, that has a recorded outcome (or no function) is
  unchanged after the run, and its function is not invoked: the state after the run is
  the one left by invoking the functions of the top-level cases that have a function
  and no outcome, and of no other case.
\<close>

theorem run_top_level_case:
  assumes run: "test_runner_run e (Some r) = (runner', e', out)"
  shows "\<exists>r'. runner' = Some r'
     \<and> length (top_cases (root_suite r')) = length (top_cases (root_suite r))
     \<and> (\<forall>i < length (top_cases (root_suite r)).
          case_inv (top_cases (root_suite r) ! i) \<longrightarrow>
          (let c = top_cases (root_suite r) ! i;
               c' = top_cases (root_suite r') ! i;
               before = env_before e (top_cases (root_suite r)) i;
               after = env_before e (top_cases (root_suite r)) (Suc i)
           in case test_func c of
                None \<Rightarrow> c' = c \<and> after = before
              | Some f \<Rightarrow>
                  if result_count c \<noteq> 0 then c' = c \<and> after = before
                  else env_world after = snd (f (env_world before))
                     \<and> (if growth_refused (env_heap before) (Some c)
                        then c' = c
                           \<and> env_stderr after
                               = env_stderr before @ ''Warning: Failed to add test result for ''
                                   @ case_name c @ [newline]
                        else recorded c' = [Some (fst (f (env_world before)))]
                           \<and> case_name c' = case_name c \<and> test_func c' = test_func c
                           \<and> env_stderr after = env_stderr before)))
     \<and> e' = env_before e (top_cases (root_suite r)) (length (top_cases (root_suite r)))
     \<and> length (forest_cases (root_suite r')) = length (forest_cases (root_suite r))
     \<and> (\<forall>j < length (forest_cases (root_suite r)).
          result_count (forest_cases (root_suite r) ! j) \<noteq> 0
          \<or> test_func (forest_cases (root_suite r) ! j) = None \<longrightarrow>
          forest_cases (root_suite r') ! j = forest_cases (root_suite r) ! j)
     \<and> env_world e' = invocations (env_world e) (top_cases (root_suite r))"
proof -
  define r' where "r' = r\<lparr>root_suite := recompute_roots (fst (run_suites e (root_suite r)))\<rparr>"
  from run have rn: "runner' = Some r'" and e': "e' = snd (run_suites e (root_suite r))"
    by (simp_all add: test_runner_run_Some r'_def)
  have world: "env_world e' = invocations (env_world e) (top_cases (root_suite r))"
    using run_suites_list [of e "root_suite r"] e' by (simp add: run_list_world)
  have fc: "forest_cases (root_suite r') = forest_cases (fst (run_suites e (root_suite r)))"
    by (simp add: r'_def recompute_roots_forest_cases)
  note kept = run_suites_kept [of "root_suite r" e, folded fc]
  have len: "length (forest_cases (root_suite r')) = length (forest_cases (root_suite r))"
    using list_all2_lengthD [OF kept] by simp
  have same: "forest_cases (root_suite r') ! j = forest_cases (root_suite r) ! j"
    if "j < length (forest_cases (root_suite r))"
      and "result_count (forest_cases (root_suite r) ! j) \<noteq> 0
        \<or> test_func (forest_cases (root_suite r) ! j) = None"
    for j
    using list_all2_nthD [OF kept that(1)] that(2) by blast
  have step: "\<exists>r''. runner' = Some r''
     \<and> length (top_cases (root_suite r'')) = length (top_cases (root_suite r))
     \<and> (let c = top_cases (root_suite r) ! i;
             c' = top_cases (root_suite r'') ! i;
             before = env_before e (top_cases (root_suite r)) i;
             after = env_before e (top_cases (root_suite r)) (Suc i)
         in case test_func c of
              None \<Rightarrow> c' = c \<and> after = before
            | Some f \<Rightarrow>
                if result_count c \<noteq> 0 then c' = c \<and> after = before
                else env_world after = snd (f (env_world before))
                   \<and> (if growth_refused (env_heap before) (Some c)
                      then c' = c
                         \<and> env_stderr after
                             = env_stderr before @ ''Warning: Failed to add test result for ''
                                 @ case_name c @ [newline]
                      else recorded c' = [Some (fst (f (env_world before)))]
                         \<and> case_name c' = case_name c \<and> test_func c' = test_func c
                         \<and> env_stderr after = env_stderr before))
     \<and> e' = env_before e (top_cases (root_suite r)) (length (top_cases (root_suite r)))"
    if "i < length (top_cases (root_suite r))" "case_inv (top_cases (root_suite r) ! i)" for i
    using run_top_level_step [OF run that] .
  have tl: "length (top_cases (root_suite r')) = length (top_cases (root_suite r))"
    using recompute_roots_cases [of "fst (run_suites e (root_suite r))"]
      run_suites_list [of e "root_suite r"]
    by (simp add: r'_def run_list_length)
  have fin: "e' = env_before e (top_cases (root_suite r)) (length (top_cases (root_suite r)))"
    using run_suites_list [of e "root_suite r"] e' by (simp add: env_before_def)
  show ?thesis
  proof (intro exI [of _ r'] conjI allI impI)
    show "runner' = Some r'" by (rule rn)
    show "length (top_cases (root_suite r')) = length (top_cases (root_suite r))" by (rule tl)
    show "e' = env_before e (top_cases (root_suite r)) (length (top_cases (root_suite r)))"
      by (rule fin)
    show "length (forest_cases (root_suite r')) = length (forest_cases (root_suite r))"
      by (rule len)
    show "env_world e' = invocations (env_world e) (top_cases (root_suite r))" by (rule world)
  next
    fix j
    assume "j < length (forest_cases (root_suite r))"
      and "result_count (forest_cases (root_suite r) ! j) \<noteq> 0
        \<or> test_func (forest_cases (root_suite r) ! j) = None"
    then show "forest_cases (root_suite r') ! j = forest_cases (root_suite r) ! j"
      by (rule same)
  next
    fix i
    assume "i < length (top_cases (root_suite r))" "case_inv (top_cases (root_suite r) ! i)"
    from step [OF this] rn
    show "let c = top_cases (root_suite r) ! i;
               c' = top_cases (root_suite r') ! i;
               before = env_before e (top_cases (root_suite r)) i;
               after = env_before e (top_cases (root_suite r)) (Suc i)
           in case test_func c of
                None \<Rightarrow> c' = c \<and> after = before
              | Some f \<Rightarrow>
                  if result_count c \<noteq> 0 then c' = c \<and> after = before
                  else env_world after = snd (f (env_world before))
                     \<and> (if growth_refused (env_heap before) (Some c)
                        then c' = c
                           \<and> env_stderr after
                               = env_stderr before @ ''Warning: Failed to add test result for ''
                                   @ case_name c @ [newline]
                        else recorded c' = [Some (fst (f (env_world before)))]
                           \<and> case_name c' = case_name c \<and> test_func c' = test_func c
                           \<and> env_stderr after = env_stderr before)"
      by auto
  qed
qed

theorem run_top_level_case_witness:
  "\<exists>r'. fst (test_runner_run start_env (Some math_runner)) = Some r'
     \<and> recorded (top_cases (root_suite r') ! 0) = [Some STATUS_SUCCESS]
     \<and> env_world (env_before start_env (top_cases (root_suite math_runner)) (Suc 0)) = 1
     \<and> forest_cases (root_suite r') ! 1
       = Test_Case ''Flaky'' (Some (\<lambda>calls. (STATUS_RUNTIME_ERROR, calls + 1)))
          [Some STATUS_SUCCESS, Some STATUS_UNEXPECTED_OUTPUT, Some STATUS_SUCCESS,
           None, None, None, None, None] 3 8 None
     \<and> env_world (fst (snd (test_runner_run start_env (Some math_runner)))) = 1"
proof -
  let ?run = "test_runner_run start_env (Some math_runner)"
  let ?tc = "top_cases (root_suite math_runner)"
  let ?fc = "forest_cases (root_suite math_runner)"
  have e: "?run = (fst ?run, fst (snd ?run), snd (snd ?run))" by simp
  from run_top_level_case [OF e] obtain r' where
    r': "fst ?run = Some r'"
    and top: "\<forall>i < length ?tc. case_inv (?tc ! i) \<longrightarrow>
          (let c = ?tc ! i;
               c' = top_cases (root_suite r') ! i;
               before = env_before start_env ?tc i;
               after = env_before start_env ?tc (Suc i)
           in case test_func c of
                None \<Rightarrow> c' = c \<and> after = before
              | Some f \<Rightarrow>
                  if result_count c \<noteq> 0 then c' = c \<and> after = before
                  else env_world after = snd (f (env_world before))
                     \<and> (if growth_refused (env_heap before) (Some c)
                        then c' = c
                           \<and> env_stderr after
                               = env_stderr before @ ''Warning: Failed to add test result for ''
                                   @ case_name c @ [newline]
                        else recorded c' = [Some (fst (f (env_world before)))]
                           \<and> case_name c' = case_name c \<and> test_func c' = test_func c
                           \<and> env_stderr after = env_stderr before))"
    and kept: "\<forall>j < length ?fc.
          result_count (?fc ! j) \<noteq> 0 \<or> test_func (?fc ! j) = None \<longrightarrow>
          forest_cases (root_suite r') ! j = ?fc ! j"
    and world: "env_world (fst (snd ?run)) = invocations (env_world start_env) ?tc"
    by blast
  have h1: "0 < length ?tc"
    by (simp add: math_runner_top_cases)
  have h2: "case_inv (?tc ! 0)"
    by (simp add: math_runner_top_cases case_inv_def)
  have b0: "env_before start_env ?tc 0 = start_env"
    by (simp add: env_before_def)
  from top h1 h2 have
    "let c = ?tc ! 0;
         c' = top_cases (root_suite r') ! 0;
         before = env_before start_env ?tc 0;
         after = env_before start_env ?tc (Suc 0)
     in case test_func c of
          None \<Rightarrow> c' = c \<and> after = before
        | Some f \<Rightarrow>
            if result_count c \<noteq> 0 then c' = c \<and> after = before
            else env_world after = snd (f (env_world before))
               \<and> (if growth_refused (env_heap before) (Some c)
                  then c' = c
                     \<and> env_stderr after
                         = env_stderr before @ ''Warning: Failed to add test result for ''
                             @ case_name c @ [newline]
                  else recorded c' = [Some (fst (f (env_world before)))]
                     \<and> case_name c' = case_name c \<and> test_func c' = test_func c
                     \<and> env_stderr after = env_stderr before)"
    by blast
  then have first: "recorded (top_cases (root_suite r') ! 0) = [Some STATUS_SUCCESS]
     \<and> env_world (env_before start_env ?tc (Suc 0)) = 1"
    unfolding Let_def b0
    by (simp add: math_runner_top_cases not_refused_first start_env_def)
  have "1 < length ?fc" "result_count (?fc ! 1) \<noteq> 0"
    by (simp_all add: math_runner_forest_cases)
  with kept have "forest_cases (root_suite r') ! 1 = ?fc ! 1" by blast
  then have second: "forest_cases (root_suite r') ! 1
       = Test_Case ''Flaky'' (Some (\<lambda>calls. (STATUS_RUNTIME_ERROR, calls + 1)))
          [Some STATUS_SUCCESS, Some STATUS_UNEXPECTED_OUTPUT, Some STATUS_SUCCESS,
           None, None, None, None, None] 3 8 None"
    by (simp add: math_runner_forest_cases)
  have "invocations (env_world start_env) ?tc = 1"
    by (simp add: math_runner_top_cases start_env_def)
  with world have third: "env_world (fst (snd ?run)) = 1" by simp
  from r' first second third show ?thesis by blast
qed

section \<open>What the rendering contains\<close>

lemma occurs_in_self: "occurs_in xs xs"
  by (rule exI [of _ "[]"], rule exI [of _ "[]"]) simp

lemma occurs_in_first: "occurs_in xs a \<Longrightarrow> occurs_in xs (a @ b)"
  by (metis append.assoc)

lemma occurs_in_second: "occurs_in xs b \<Longrightarrow> occurs_in xs (a @ b)"
  by (metis append.assoc)

lemma print_test_cases_lines:
  "c \<in> set (case_chain cs) \<Longrightarrow>
     \<exists>g. (g = glyph_corner \<or> g = glyph_tee)
       \<and> occurs_in (case_line np g c) (print_test_cases cs np nc)"
proof (induction cs np nc rule: print_test_cases.induct)
  case (1 np nc)
  then show ?case by simp
next
  case (2 nm f rs cnt cap nxt np nc)
  define g where "g = (if nxt = None \<and> nc then glyph_corner else glyph_tee)"
  define rest where "rest = print_test_cases nxt np nc"
  have g: "g = glyph_corner \<or> g = glyph_tee" by (simp add: g_def)
  have whole: "print_test_cases (Some (Test_Case nm f rs cnt cap nxt)) np nc
      = case_line np g (Test_Case nm f rs cnt cap None) @ rest"
    by (simp add: case_line_def g_def rest_def recorded_def Let_def)
  from "2.prems" consider "c = Test_Case nm f rs cnt cap None" | "c \<in> set (case_chain nxt)"
    by auto
  then show ?case
  proof cases
    case 1
    have "occurs_in (case_line np g c) (case_line np g c @ rest)"
      by (rule occurs_in_first) (rule occurs_in_self)
    with g 1 show ?thesis unfolding whole by blast
  next
    case 2
    from "2.IH" [OF refl 2] obtain g' where g': "g' = glyph_corner \<or> g' = glyph_tee"
      and o: "occurs_in (case_line np g' c) rest"
      unfolding rest_def by blast
    from o have "occurs_in (case_line np g' c)
        (case_line np g (Test_Case nm f rs cnt cap None) @ rest)"
      by (rule occurs_in_second)
    with g' show ?thesis unfolding whole by blast
  qed
qed


lemma print_roots_eq: "print_roots p = print_child_suites p [] 0"
  by (induction p rule: print_roots.induct) simp_all

lemma render_descends:
  fixes s :: "'w test_suite" and ch :: "'w test_suite option"
  shows "(\<forall>S \<in> set (subtree_suites s). \<exists>p l d.
            occurs_in (print_tree_node S p l d) (print_tree_node s prefix is_last depth))
       \<and> (\<forall>c \<in> set (subtree_cases s). \<exists>p g. (g = glyph_corner \<or> g = glyph_tee)
            \<and> occurs_in (case_line p g c) (print_tree_node s prefix is_last depth))"
    and "(\<forall>S \<in> set (forest_suites ch). \<exists>p l d.
            occurs_in (print_tree_node S p l d) (print_child_suites ch prefix' depth'))
       \<and> (\<forall>c \<in> set (forest_cases ch). \<exists>p g. (g = glyph_corner \<or> g = glyph_tee)
            \<and> occurs_in (case_line p g c) (print_child_suites ch prefix' depth'))"
proof (induction s prefix is_last depth and ch prefix' depth'
    rule: print_tree_node_print_child_suites.induct)
  case (1 nm cs ch nxt st prefix is_last depth)
  define node where "node = Test_Suite nm cs ch nxt st"
  define np where "np = child_prefix prefix is_last"
  define head where "head = prefix @ (if is_last then glyph_corner else glyph_tee) @ glyph_dash
      @ nm @ replicate (nat (sint (node_padding prefix nm))) (CHR '' '')
      @ print_stats st @ [newline]"
  define below where "below = print_child_suites ch np (depth + 1)"
  define own where "own = print_test_cases cs np (ch = None)"
  define whole where "whole = print_tree_node node prefix is_last depth"
  have w: "whole = head @ below @ own"
    by (simp add: whole_def node_def head_def below_def own_def np_def)
  note ih = "1.IH" [folded np_def]
  have in_below: "occurs_in xs whole" if "occurs_in xs below" for xs :: string
    unfolding w using that by (intro occurs_in_second occurs_in_first)
  have in_own: "occurs_in xs whole" if "occurs_in xs own" for xs :: string
    unfolding w using that by (intro occurs_in_second)
  have suites: "\<exists>p l d. occurs_in (print_tree_node S p l d) whole"
    if "S \<in> set (subtree_suites node)" for S
  proof -
    from that consider "S = node" | "S \<in> set (forest_suites ch)"
      by (auto simp: node_def)
    then show ?thesis
    proof cases
      case 1
      have "occurs_in (print_tree_node S prefix is_last depth) whole"
        unfolding 1 whole_def by (rule occurs_in_self)
      then show ?thesis by blast
    next
      case 2
      with ih obtain p l d where "occurs_in (print_tree_node S p l d) below"
        unfolding below_def by blast
      then have "occurs_in (print_tree_node S p l d) whole" by (rule in_below)
      then show ?thesis by blast
    qed
  qed
  have cases: "\<exists>p g. (g = glyph_corner \<or> g = glyph_tee) \<and> occurs_in (case_line p g c) whole"
    if "c \<in> set (subtree_cases node)" for c
  proof -
    from that consider "c \<in> set (case_chain cs)" | "c \<in> set (forest_cases ch)"
      by (auto simp: node_def)
    then show ?thesis
    proof cases
      case 1
      from print_test_cases_lines [OF 1, of np "ch = None"] obtain g where
        "g = glyph_corner \<or> g = glyph_tee" "occurs_in (case_line np g c) own"
        unfolding own_def by blast
      with in_own show ?thesis by blast
    next
      case 2
      with ih obtain p g where "g = glyph_corner \<or> g = glyph_tee"
        "occurs_in (case_line p g c) below"
        unfolding below_def by blast
      with in_below show ?thesis by blast
    qed
  qed
  from suites cases show ?case
    unfolding whole_def node_def by blast
next
  case (2 prefix depth)
  then show ?case by simp
next
  case (3 nm cs ch nxt st prefix depth)
  define node where "node = Test_Suite nm cs ch nxt st"
  define first where "first = print_tree_node node prefix (nxt = None) depth"
  define rest where "rest = print_child_suites nxt prefix depth"
  define whole where "whole = print_child_suites (Some node) prefix depth"
  have w: "whole = first @ rest"
    by (simp add: whole_def node_def first_def rest_def)
  note ih1 = "3.IH"(1) [folded node_def]
  note ih2 = "3.IH"(2)
  have suites: "\<exists>p l d. occurs_in (print_tree_node S p l d) whole"
    if "S \<in> set (forest_suites (Some node))" for S
  proof -
    from that consider "S \<in> set (subtree_suites node)" | "S \<in> set (forest_suites nxt)"
      by (auto simp: node_def)
    then show ?thesis
    proof cases
      case 1
      with ih1 obtain p l d where "occurs_in (print_tree_node S p l d) first"
        unfolding first_def by blast
      then have "occurs_in (print_tree_node S p l d) whole"
        unfolding w by (rule occurs_in_first)
      then show ?thesis by blast
    next
      case 2
      with ih2 obtain p l d where "occurs_in (print_tree_node S p l d) rest"
        unfolding rest_def by blast
      then have "occurs_in (print_tree_node S p l d) whole"
        unfolding w by (rule occurs_in_second)
      then show ?thesis by blast
    qed
  qed
  have cases: "\<exists>p g. (g = glyph_corner \<or> g = glyph_tee) \<and> occurs_in (case_line p g c) whole"
    if "c \<in> set (forest_cases (Some node))" for c
  proof -
    from that consider "c \<in> set (subtree_cases node)" | "c \<in> set (forest_cases nxt)"
      by (auto simp: node_def)
    then show ?thesis
    proof cases
      case 1
      with ih1 obtain p g where g: "g = glyph_corner \<or> g = glyph_tee"
        and "occurs_in (case_line p g c) first"
        unfolding first_def by blast
      then have "occurs_in (case_line p g c) whole"
        unfolding w by (intro occurs_in_first)
      with g show ?thesis by blast
    next
      case 2
      with ih2 obtain p g where g: "g = glyph_corner \<or> g = glyph_tee"
        and "occurs_in (case_line p g c) rest"
        unfolding rest_def by blast
      then have "occurs_in (case_line p g c) whole"
        unfolding w by (intro occurs_in_second)
      with g show ?thesis by blast
    qed
  qed
  from suites cases show ?case
    unfolding whole_def node_def by blast
qed

lemma run_suites_None: "fst (run_suites e p) = None \<longleftrightarrow> p = None"
  by (cases p rule: recompute_roots.cases) (simp_all add: case_prod_unfold Let_def)

lemma child_cases_in_forest:
  "set (concat (map (\<lambda>s. forest_cases (child_suites s)) (suite_chain p)))
     \<subseteq> set (forest_cases p)"
  by (induction p rule: suite_chain.induct) auto

text \<open>
  C3. After \<open>test_runner_run\<close>, under every top-level suite the cases of the child suites,
  at any depth, are what they were (name, function, array and counts). The top-level
  cases and the environment after the run (allocator, state of the test functions,
  standard error) are those of running the loop body over the top-level cases alone, and
  the state of the test functions is the one left by invoking the functions of the
  top-level cases that have a function and no outcome: no function of a child suite's
  case is invoked. The two passes that follow do descend. Statistics: every suite of the
  tree, at any depth, ends with fresh \<open>stats\<close>. Rendering: the text written is the legend
  followed by the rendering of the top-level suites, and in it occur the rendering of
  every suite of the tree, at any depth, and the line of every case of the tree, those
  of the child suites included.
\<close>

theorem run_leaves_child_suites:
  assumes "test_runner_run e (Some r) = (runner', e', out)"
  shows "\<exists>r'. runner' = Some r'
     \<and> map (\<lambda>s. forest_cases (child_suites s)) (suite_chain (root_suite r'))
         = map (\<lambda>s. forest_cases (child_suites s)) (suite_chain (root_suite r))
     \<and> top_cases (root_suite r') = fst (run_list e (top_cases (root_suite r)))
     \<and> e' = snd (run_list e (top_cases (root_suite r)))
     \<and> env_world e' = invocations (env_world e) (top_cases (root_suite r))
     \<and> (\<forall>S \<in> set (forest_suites (root_suite r')). fresh S)
     \<and> out = (if root_suite r = None then []
              else print_legend @ print_roots (root_suite r'))
     \<and> (\<forall>S \<in> set (forest_suites (root_suite r')).
          \<exists>p l d. occurs_in (print_tree_node S p l d) out)
     \<and> (\<forall>c \<in> set (forest_cases (root_suite r')).
          \<exists>p g. (g = glyph_corner \<or> g = glyph_tee) \<and> occurs_in (case_line p g c) out)"
proof -
  define ran where "ran = fst (run_suites e (root_suite r))"
  define r' where "r' = r\<lparr>root_suite := recompute_roots ran\<rparr>"
  define roots where "roots = recompute_roots ran"
  have rr': "root_suite r' = roots" by (simp add: r'_def roots_def)
  have none: "ran = None \<longleftrightarrow> root_suite r = None"
    unfolding ran_def by (rule run_suites_None)
  from assms have rn: "runner' = Some r'" and e': "e' = snd (run_suites e (root_suite r))"
    and out0: "out = snd (print_test_results (Some (r\<lparr>root_suite := ran\<rparr>)))"
    by (simp_all add: test_runner_run_Some r'_def ran_def [symmetric])
  have out: "out = (if root_suite r = None then [] else print_legend @ print_roots roots)"
    unfolding out0 roots_def by (simp add: print_test_results_Some none)
  note rs = run_suites_list [of e "root_suite r", folded ran_def]
  note rr = recompute_roots_cases [of ran]
  have ch: "map (\<lambda>s. forest_cases (child_suites s)) (suite_chain ran)
      = map (\<lambda>s. forest_cases (child_suites s)) (suite_chain (root_suite r))"
  proof -
    have "map (\<lambda>s. forest_cases (child_suites s)) (suite_chain ran)
        = map forest_cases (map child_suites (suite_chain ran))"
      by simp
    also have "\<dots> = map forest_cases (map child_suites (suite_chain (root_suite r)))"
      using rs by simp
    finally show ?thesis by simp
  qed
  have world: "env_world e' = invocations (env_world e) (top_cases (root_suite r))"
    using rs e' by (simp add: run_list_world)
  note d = render_descends(2) [of roots "[]" 0, folded print_roots_eq]
  have suites: "\<exists>p l d. occurs_in (print_tree_node S p l d) out"
    if "S \<in> set (forest_suites roots)" for S
  proof -
    from that d obtain p l d where o: "occurs_in (print_tree_node S p l d) (print_roots roots)"
      by blast
    from that have "roots \<noteq> None" by (cases roots) simp_all
    then have "root_suite r \<noteq> None"
      unfolding roots_def using none by (cases ran) auto
    with out have "out = print_legend @ print_roots roots" by auto
    with o have "occurs_in (print_tree_node S p l d) out"
      by (simp only: occurs_in_second)
    then show ?thesis by blast
  qed
  have lines: "\<exists>p g. (g = glyph_corner \<or> g = glyph_tee) \<and> occurs_in (case_line p g c) out"
    if "c \<in> set (forest_cases roots)" for c
  proof -
    from that d obtain p g where g: "g = glyph_corner \<or> g = glyph_tee"
      and o: "occurs_in (case_line p g c) (print_roots roots)"
      by blast
    from that have "roots \<noteq> None" by (cases roots) simp_all
    then have "root_suite r \<noteq> None"
      unfolding roots_def using none by (cases ran) auto
    with out have "out = print_legend @ print_roots roots" by auto
    with o have "occurs_in (case_line p g c) out"
      by (simp only: occurs_in_second)
    with g show ?thesis by blast
  qed
  show ?thesis
  proof (intro exI [of _ r'] conjI)
    show "runner' = Some r'" by (rule rn)
    show "map (\<lambda>s. forest_cases (child_suites s)) (suite_chain (root_suite r'))
         = map (\<lambda>s. forest_cases (child_suites s)) (suite_chain (root_suite r))"
      using rr ch by (simp add: rr' roots_def)
    show "top_cases (root_suite r') = fst (run_list e (top_cases (root_suite r)))"
      using rr rs by (simp add: rr' roots_def)
    show "e' = snd (run_list e (top_cases (root_suite r)))"
      using rs e' by simp
    show "env_world e' = invocations (env_world e) (top_cases (root_suite r))"
      by (rule world)
    show "\<forall>S \<in> set (forest_suites (root_suite r')). fresh S"
      using recompute_roots_fresh [of ran] by (simp add: rr' roots_def)
    show "out = (if root_suite r = None then []
              else print_legend @ print_roots (root_suite r'))"
      unfolding rr' by (rule out)
    show "\<forall>S \<in> set (forest_suites (root_suite r')).
          \<exists>p l d. occurs_in (print_tree_node S p l d) out"
      unfolding rr' using suites by blast
    show "\<forall>c \<in> set (forest_cases (root_suite r')).
          \<exists>p g. (g = glyph_corner \<or> g = glyph_tee) \<and> occurs_in (case_line p g c) out"
      unfolding rr' using lines by blast
  qed
qed

theorem run_leaves_child_suites_witness:
  "\<exists>r'. fst (test_runner_run start_env (Some math_runner)) = Some r'
     \<and> map (\<lambda>s. forest_cases (child_suites s)) (suite_chain (root_suite r'))
       = [[Test_Case ''Overflow'' (Some (\<lambda>calls. (STATUS_BUILD_ERROR, calls + 1))) [] 0 0 None]]
     \<and> env_world (fst (snd (test_runner_run start_env (Some math_runner)))) = 1
     \<and> (\<exists>p g. occurs_in
            (case_line p g
              (Test_Case ''Overflow'' (Some (\<lambda>calls. (STATUS_BUILD_ERROR, calls + 1)))
                 [] 0 0 None :: nat test_case))
            (snd (snd (test_runner_run start_env (Some math_runner)))))"
proof -
  let ?run = "test_runner_run start_env (Some math_runner)"
  let ?o = "Test_Case ''Overflow'' (Some (\<lambda>calls. (STATUS_BUILD_ERROR, calls + 1))) [] 0 0 None
    :: nat test_case"
  have e: "?run = (fst ?run, fst (snd ?run), snd (snd ?run))" by simp
  from run_leaves_child_suites [OF e] obtain r' where
    r': "fst ?run = Some r'"
    and ch: "map (\<lambda>s. forest_cases (child_suites s)) (suite_chain (root_suite r'))
         = map (\<lambda>s. forest_cases (child_suites s)) (suite_chain (root_suite math_runner))"
    and world: "env_world (fst (snd ?run))
         = invocations (env_world start_env) (top_cases (root_suite math_runner))"
    and lines: "\<forall>c \<in> set (forest_cases (root_suite r')).
          \<exists>p g. (g = glyph_corner \<or> g = glyph_tee)
            \<and> occurs_in (case_line p g c) (snd (snd ?run))"
    by blast
  have m: "map (\<lambda>s. forest_cases (child_suites s)) (suite_chain (root_suite math_runner))
       = [[?o]]"
    by (simp add: math_runner_def)
  have "?o \<in> set (concat (map (\<lambda>s. forest_cases (child_suites s))
      (suite_chain (root_suite r'))))"
    unfolding ch m by simp
  with child_cases_in_forest [of "root_suite r'"]
  have "?o \<in> set (forest_cases (root_suite r'))" by blast
  with lines obtain p g where "occurs_in (case_line p g ?o) (snd (snd ?run))" by blast
  then have l: "\<exists>p g. occurs_in (case_line p g ?o) (snd (snd ?run))" by blast
  have "invocations (env_world start_env) (top_cases (root_suite math_runner)) = 1"
    by (simp add: math_runner_top_cases start_env_def)
  with world have w: "env_world (fst (snd ?run)) = 1" by simp
  from ch m have chm: "map (\<lambda>s. forest_cases (child_suites s)) (suite_chain (root_suite r'))
       = [[?o]]"
    by (rule trans)
  show ?thesis
    by (intro exI [of _ r'] conjI) (rule r' chm w l)+
qed

end
